theory Spec2Isabelle
  imports Main "HOL-Library.Word" "HOL-Library.Sublist" "HOL-Library.Multiset"
begin

unbundle bit_operations_syntax

section \<open>Data model of huffman.hpp\<close>

text \<open>
  The header works on \<open>std::vector<uint8_t>\<close> (a byte list), \<open>std::vector<bool>\<close>
  (a bit list) and values of a template type \<open>T\<close>.  \<open>T\<close> is modelled as an unsigned
  fixed-width integer \<open>'a word\<close>; \<open>sizeof(T)\<close> is \<open>LENGTH('a) div 8\<close>, and the theorems
  that need the width to be a whole number of bytes say so (\<open>8 dvd LENGTH('a)\<close>).
  \<open>operator<\<close> of an unsigned \<open>T\<close>, which orders the keys of a \<open>std::map\<close>, is the
  order of the word type.  The tree builder is defined for any linearly ordered symbol
  type, and the section on the template parameter gives the encoder for any such type
  and for a signed \<open>T\<close>.
  \<open>size_t\<close> is the 64-bit unsigned type of an LP64 host, so \<open>data.size() - start\<close>
  wraps around as the C++ expression does.  A vector holds fewer than \<open>2^64\<close> elements;
  theorems that convert a length to \<open>size_t\<close> assume it.

  A C++ exception is the fault \<open>Runtime_error\<close> with the message of the \<open>throw\<close>.
  An unchecked \<open>operator[]\<close> out of range, a null pointer dereference and the
  dereference of \<open>end()\<close> have no defined result in C++: the model returns
  \<open>Undefined_behaviour\<close> at that point instead of any value.

  The constant \<open>little_endian\<close> of the header is fixed by the host the header is
  compiled on; every function that reads it takes it as its first argument \<open>le\<close>.
\<close>

type_synonym byte = "8 word"
type_synonym size_t = "64 word"

datatype fault = Runtime_error string | Undefined_behaviour

subsection \<open>Object representation of a value of type T\<close>

text \<open>
  \<open>(uint8_t*)&value\<close> reads the bytes of the value as the host stores them:
  least significant byte first on a little-endian host, most significant byte first on a
  big-endian one.  \<open>le_bytes n v\<close> lists the \<open>n\<close> low base-256 digits of \<open>v\<close>, least
  significant first; \<open>le_value\<close> is the number a digit list stands for.
\<close>

definition sizeof :: "'a::len word \<Rightarrow> nat" where
  "sizeof v = LENGTH('a) div 8"

definition le_bytes :: "nat \<Rightarrow> 'a::len word \<Rightarrow> byte list" where
  "le_bytes n v = map (\<lambda>i. ucast (drop_bit (8 * i) v)) [0..<n]"

fun le_value :: "byte list \<Rightarrow> 'a::len word" where
  "le_value [] = 0"
| "le_value (b # bs) = ucast b OR push_bit 8 (le_value bs)"

definition object_bytes :: "bool \<Rightarrow> 'a::len word \<Rightarrow> byte list" where
  "object_bytes le v = (if le then le_bytes (sizeof v) v else rev (le_bytes (sizeof v) v))"

definition object_value :: "bool \<Rightarrow> byte list \<Rightarrow> 'a::len word" where
  "object_value le mem = (if le then le_value mem else le_value (rev mem))"

section \<open>Primitive codec\<close>

text \<open>\<open>to_bytes\<close>: the two loops of the source, over the object representation.\<close>

definition to_bytes :: "bool \<Rightarrow> 'a::len word \<Rightarrow> byte list" where
  "to_bytes le v =
     (let mem = object_bytes le v; n = sizeof v
      in if le then map (\<lambda>i. mem ! i) [0..<n]
         else map (\<lambda>i. mem ! i) (rev [0..<n]))"

text \<open>
  \<open>from_bytes\<close>: the size check is the unsigned subtraction of the source; past it,
  \<open>data[start + i]\<close> is read unchecked for every \<open>i < sizeof(T)\<close>.  Both branches
  store \<open>data[start + i]\<close> into byte \<open>i\<close> of \<open>out\<close>; they differ only in the order in
  which \<open>i\<close> runs.
\<close>

definition from_bytes :: "bool \<Rightarrow> byte list \<Rightarrow> size_t \<Rightarrow> fault + 'a::len word" where
  "from_bytes le data start =
     (let n = LENGTH('a) div 8
      in if (of_nat (length data) - start :: size_t) < of_nat n
         then Inl (Runtime_error ''from_bytes: input data too small.'')
         else if \<not> list_all (\<lambda>i. unat (start + of_nat i) < length data) [0..<n]
         then Inl Undefined_behaviour
         else Inr (object_value le
                (foldl (\<lambda>out i. out[i := data ! unat (start + of_nat i)])
                   (replicate n 0)
                   (if le then [0..<n] else rev [0..<n]))))"

text \<open>\<open>to_bits\<close>: byte \<open>i\<close> of the value in little-endian order, each byte from bit 7
  down to bit 0.\<close>

definition byte_bits :: "byte \<Rightarrow> bool list" where
  "byte_bits b = map (\<lambda>j. (drop_bit (7 - j) b AND 1) \<noteq> 0) [0..<8]"

definition to_bits :: "bool \<Rightarrow> 'a::len word \<Rightarrow> bool list" where
  "to_bits le v =
     (let mem = object_bytes le v; n = sizeof v
      in concat (map (\<lambda>i. byte_bits (if le then mem ! i else mem ! (n - i - 1))) [0..<n]))"

text \<open>
  \<open>from_bits\<close>: after the size check, byte \<open>i\<close> (little-endian host) or byte
  \<open>sizeof(T) - i - 1\<close> (big-endian host) of \<open>out\<close> receives the next eight bits of
  \<open>data\<close>, the first of them as bit 7.  \<open>set_bits\<close> is the inner loop on one byte.
\<close>

definition set_bits :: "bool list \<Rightarrow> size_t \<Rightarrow> byte \<Rightarrow> byte" where
  "set_bits data start b =
     foldl (\<lambda>byte j. let bit = drop_bit j (0x80 :: byte)
                      in if data ! unat (start + of_nat j) then byte OR bit
                         else byte AND NOT bit)
       b [0..<8]"

definition from_bits :: "bool \<Rightarrow> bool list \<Rightarrow> size_t \<Rightarrow> fault + 'a::len word" where
  "from_bits le data start =
     (let n = LENGTH('a) div 8
      in if (of_nat (length data) - start :: size_t) < of_nat (n * 8)
         then Inl (Runtime_error ''from_bits: input data too small.'')
         else if \<not> list_all (\<lambda>k. unat (start + of_nat k) < length data) [0..<n * 8]
         then Inl Undefined_behaviour
         else Inr (object_value le
                (foldl (\<lambda>out i. let k = (if le then i else n - i - 1)
                                 in out[k := set_bits data (start + of_nat (8 * i)) (out ! k)])
                   (replicate n 0) [0..<n])))"


section \<open>Bitstream framer\<close>

text \<open>
  A file is the list of its bytes.  \<open>write_data\<close> returns the bytes it writes: the
  eight bytes of \<open>to_bytes<uint64_t>(data.size())\<close>, then one byte for every eight
  bits and a last, partly filled byte when \<open>pad\<close> is still set after the loop.
\<close>

definition write_data :: "bool \<Rightarrow> bool list \<Rightarrow> byte list" where
  "write_data le data =
     (let size_bytes = to_bytes le (of_nat (length data) :: 64 word);
          (byte, pad, file) =
             foldl (\<lambda>(byte, pad, file) i.
                      let bit = i mod 8;
                          byte = (if data ! i then byte OR drop_bit bit (0x80 :: byte) else byte)
                      in if bit = 7 then (0, False, file @ [byte]) else (byte, True, file))
               (0, False, size_bytes) [0..<length data]
      in if pad then file @ [byte] else file)"

text \<open>
  \<open>read_data\<close>: \<open>in_file.read\<close> of eight bytes sets \<open>eof\<close> when fewer than eight are
  left; the loop \<open>read_bits\<close> reads one more byte whenever \<open>i % 8 == 0\<close> and fails the
  same way when none is left.  \<open>file\<close> is what has not been read yet.
\<close>

function read_bits :: "nat \<Rightarrow> nat \<Rightarrow> byte \<Rightarrow> byte list \<Rightarrow> bool list \<Rightarrow> fault + bool list" where
  "read_bits sz i byte file out =
     (if i < sz then
        (if i mod 8 = 0 then
           (case file of
              [] \<Rightarrow> Inl (Runtime_error ''read_data: premature end of file.'')
            | b # file' \<Rightarrow>
                read_bits sz (i + 1) b file' (out @ [b AND drop_bit (i mod 8) 0x80 \<noteq> 0]))
         else read_bits sz (i + 1) byte file (out @ [byte AND drop_bit (i mod 8) 0x80 \<noteq> 0]))
      else Inr out)"
  by pat_completeness auto
termination
  by (relation "measure (\<lambda>(sz, i, byte, file, out). sz - i)") auto

definition read_data :: "bool \<Rightarrow> byte list \<Rightarrow> fault + bool list" where
  "read_data le file =
     (if length file < 8 then Inl (Runtime_error ''read_data: premature end of file.'')
      else case (from_bytes le (take 8 file) 0 :: fault + 64 word) of
             Inl e \<Rightarrow> Inl e
           | Inr sz \<Rightarrow> read_bits (unat sz) 0 0 (drop 8 file) [])"

section \<open>Encoder\<close>

text \<open>
  The local \<open>struct Node\<close> of \<open>encode\<close> has two constructors: \<open>Node(T value, size_t freq)\<close>
  builds a node with \<open>end = true\<close>, and \<open>Node(Node* l, Node* r)\<close> one with \<open>end = false\<close>
  that owns \<open>l\<close> and \<open>r\<close>, concatenates their \<open>values\<close> and adds their \<open>freq\<close>.
  Frequencies are counts of input positions; their sum never exceeds \<open>data.size()\<close>, so
  they are natural numbers here.
\<close>

datatype 'a node = Leaf 'a nat | Internal "'a list" nat "'a node" "'a node"

fun is_end :: "'a node \<Rightarrow> bool" where
  "is_end (Leaf v f) = True"
| "is_end (Internal vs f l r) = False"

fun values_of :: "'a node \<Rightarrow> 'a list" where
  "values_of (Leaf v f) = [v]"
| "values_of (Internal vs f l r) = vs"

fun freq :: "'a node \<Rightarrow> nat" where
  "freq (Leaf v f) = f"
| "freq (Internal vs f l r) = f"

definition parent_node :: "'a node \<Rightarrow> 'a node \<Rightarrow> 'a node" where
  "parent_node l r = Internal (values_of l @ values_of r) (freq l + freq r) l r"

fun encode_tree :: "bool \<Rightarrow> 'a::len word node \<Rightarrow> bool list" where
  "encode_tree le (Leaf v f) = True # to_bits le v"
| "encode_tree le (Internal vs f l r) = False # encode_tree le l @ encode_tree le r"

text \<open>
  \<open>std::map<T, size_t> freq_table\<close> is kept as the list of its entries in key order, the
  order in which the range-for visits them.  \<open>incr k\<close> is \<open>freq_table[k] += 1\<close>.
\<close>

fun incr :: "'a::linorder \<Rightarrow> ('a \<times> nat) list \<Rightarrow> ('a \<times> nat) list" where
  "incr k [] = [(k, 1)]"
| "incr k ((k', c) # m) =
     (if k < k' then (k, 1) # (k', c) # m
      else if k = k' then (k', c + 1) # m
      else (k', c) # incr k m)"

definition freq_table :: "'a::linorder list \<Rightarrow> ('a \<times> nat) list" where
  "freq_table data = foldl (\<lambda>m x. incr x m) [] data"

text \<open>
  \<open>nodes.sort\<close> with the comparison \<open>l->freq > r->freq\<close>: \<open>std::list::sort\<close> is stable,
  so the result is the stable sort by descending frequency.
\<close>

definition sort_nodes :: "'a node list \<Rightarrow> 'a node list" where
  "sort_nodes nodes = sort_key (\<lambda>n. - int (freq n)) nodes"

text \<open>
  \<open>std::map<T, std::vector<bool>> encoding_lut\<close> is only read and written through
  \<open>operator[]\<close>, which creates an empty vector for a key that is not there.
\<close>

definition lut_get :: "('a \<rightharpoonup> bool list) \<Rightarrow> 'a \<Rightarrow> bool list" where
  "lut_get lut v = (case lut v of None \<Rightarrow> [] | Some s \<Rightarrow> s)"

definition lut_push :: "bool \<Rightarrow> ('a \<rightharpoonup> bool list) \<Rightarrow> 'a \<Rightarrow> ('a \<rightharpoonup> bool list)" where
  "lut_push b lut v = lut(v \<mapsto> lut_get lut v @ [b])"

text \<open>The inner \<open>for\<close> of the merge loop: \<open>parent\<close> goes in front of the first node
  whose frequency is not greater than its own, or at the end.\<close>

fun insert_node :: "'a node \<Rightarrow> 'a node list \<Rightarrow> 'a node list" where
  "insert_node parent [] = [parent]"
| "insert_node parent (n # ns) =
     (if freq n \<le> freq parent then parent # n # ns else n # insert_node parent ns)"

text \<open>
  One pass of \<open>while (true)\<close>: \<open>l\<close> is the last node of the list, \<open>r\<close> the one before
  it.  The loop leaves when the last node is the first one.  On an empty list the model
  lets the loop leave as well (\<open>std::prev(nodes.end())\<close> comes back to \<open>nodes.begin()\<close>
  in a circular list); the dereference of \<open>nodes.begin()\<close> that follows in \<open>encode\<close> is
  where the model reports that the behaviour is undefined.
\<close>

definition merge_step :: "'a node list \<times> ('a \<rightharpoonup> bool list) \<Rightarrow> 'a node list \<times> ('a \<rightharpoonup> bool list)" where
  "merge_step s =
     (let nodes = fst s; encoding_lut = snd s;
          l = last nodes;
          r = last (butlast nodes);
          nodes = butlast (butlast nodes);
          encoding_lut = foldl (lut_push False) encoding_lut (values_of l);
          encoding_lut = foldl (lut_push True) encoding_lut (values_of r);
          parent = parent_node l r
      in (insert_node parent nodes, encoding_lut))"

function merge_loop :: "'a node list \<times> ('a \<rightharpoonup> bool list) \<Rightarrow> 'a node list \<times> ('a \<rightharpoonup> bool list)" where
  "merge_loop s = (if length (fst s) \<le> 1 then s else merge_loop (merge_step s))"
  by pat_completeness auto


lemma length_insert_node: "length (insert_node p ns) = Suc (length ns)"
  by (induction ns) simp_all

termination merge_loop
  by (relation "measure (\<lambda>s. length (fst s))")
     (auto simp: merge_step_def Let_def length_insert_node)

text \<open>
  \<open>build\<close> is \<open>encode\<close> up to the end of the merge loop: the frequency table, the
  list of leaves in key order, its sort and the merge loop.
  \<open>encode\<close>: \<open>*nodes.begin()\<close> is the root when the list holds a node.  On an empty list
  it dereferences \<open>end()\<close>.  The output is the serialised tree followed, for every input
  symbol, by its \<open>encoding_lut\<close> entry read from the back.
\<close>

definition build :: "'a::linorder list \<Rightarrow> 'a node list \<times> ('a \<rightharpoonup> bool list)" where
  "build data =
     merge_loop (sort_nodes (map (\<lambda>(value, freq). Leaf value freq) (freq_table data)), Map.empty)"

definition encode :: "bool \<Rightarrow> 'a::len word list \<Rightarrow> fault + bool list" where
  "encode le data =
     (let (nodes, encoding_lut) = build data
      in case nodes of
           [] \<Rightarrow> Inl Undefined_behaviour
         | tree # _ \<Rightarrow>
             Inr (encode_tree le tree
                  @ concat (map (\<lambda>value. rev (lut_get encoding_lut value)) data)))"

section \<open>Decoder\<close>

text \<open>
  The local \<open>struct Node\<close> of \<open>decode\<close>: a node with \<open>end = true\<close> holds one value and
  two null \<open>sub_nodes\<close>; a node with \<open>end = false\<close> holds the two nodes its constructor
  built.  \<open>decode_node\<close> is the constructor \<open>Node(data, start)\<close>; it returns the node
  and the new value of the reference parameter \<open>start\<close>.  \<open>data[start++]\<close> is an
  unchecked read.
\<close>

datatype 'a dnode = DLeaf 'a | DInternal "'a dnode" "'a dnode"

function decode_node :: "bool \<Rightarrow> bool list \<Rightarrow> nat \<Rightarrow> fault + ('a::len word dnode \<times> nat)" where
  "decode_node le data start =
     (if length data \<le> start then Inl Undefined_behaviour
      else if data ! start then
        (case from_bits le data (of_nat (start + 1)) of
           Inl e \<Rightarrow> Inl e
         | Inr v \<Rightarrow> Inr (DLeaf v, start + 1 + LENGTH('a) div 8 * 8))
      else
        (case decode_node le data (start + 1) of
           Inl e \<Rightarrow> Inl e
         | Inr (first, start') \<Rightarrow>
             (case decode_node le data start' of
                Inl e \<Rightarrow> Inl e
              | Inr (second, start'') \<Rightarrow> Inr (DInternal first second, start''))))"
  by pat_completeness auto


text \<open>The second recursive call starts where the first one stopped, which is further
  on in \<open>data\<close>; the constructor therefore returns on every input.\<close>

lemma decode_node_advances:
  "decode_node_dom TYPE('a) (le, data, start) \<Longrightarrow>
   (decode_node le data start :: fault + ('a::len word dnode \<times> nat)) = Inr (t, start')
   \<Longrightarrow> start < start'"
proof (induction le data start arbitrary: t start' rule: decode_node.pinduct)
  case (1 le data start)
  note eq = decode_node.psimps[OF "1.hyps"]
  from "1.prems" eq have inb: "\<not> length data \<le> start"
    by (auto split: if_splits)
  show ?case
  proof (cases "data ! start")
    case True
    with "1.prems" inb show ?thesis
      by (subst (asm) eq) (auto split: sum.splits)
  next
    case False
    from "1.prems" inb False obtain l s1 r where
      a: "(decode_node le data (start + 1) :: fault + ('a word dnode \<times> nat)) = Inr (l, s1)" and
      b: "(decode_node le data s1 :: fault + ('a word dnode \<times> nat)) = Inr (r, start')"
      by (subst (asm) eq) (auto split: sum.splits prod.splits)
    from "1.IH"(1)[OF inb False a] have "start + 1 < s1" .
    moreover from "1.IH"(2)[OF inb False a refl b] have "s1 < start'" .
    ultimately show ?thesis by simp
  qed
qed

termination decode_node
proof (relation "measure (\<lambda>(le, data, start). length data - start)", goal_cases)
  case 1
  show ?case by simp
next
  case (2 le data start)
  then show ?case by auto
next
  case (3 le data start b x y)
  then have "start + 1 < y" by (auto dest: decode_node_advances)
  with 3 show ?case by auto
qed

text \<open>
  The loop of \<open>decode\<close> over \<open>data[start], \<dots>, data[data.size() - 1]\<close>.  \<open>current\<close>
  moves to \<open>sub_nodes.second\<close> on a set bit and to \<open>sub_nodes.first\<close> otherwise; both are
  null when \<open>current\<close> is a node with \<open>end = true\<close>, and \<open>current->end\<close> then
  dereferences a null pointer.  When the loop runs out of bits it returns \<open>out\<close>,
  wherever \<open>current\<close> stands.
\<close>

fun walk :: "'a dnode \<Rightarrow> 'a dnode \<Rightarrow> bool list \<Rightarrow> 'a list \<Rightarrow> fault + 'a list" where
  "walk tree current [] out = Inr out"
| "walk tree current (b # bits) out =
     (case current of
        DLeaf v \<Rightarrow> Inl Undefined_behaviour
      | DInternal first second \<Rightarrow>
          (case (if b then second else first) of
             DLeaf v \<Rightarrow> walk tree tree bits (out @ [v])
           | DInternal l r \<Rightarrow> walk tree (DInternal l r) bits out))"

definition decode :: "bool \<Rightarrow> bool list \<Rightarrow> fault + 'a::len word list" where
  "decode le data =
     (case decode_node le data 0 of
        Inl e \<Rightarrow> Inl e
      | Inr (tree, start) \<Rightarrow> walk tree tree (drop start data) [])"

declare read_bits.simps [simp del]
declare merge_loop.simps [simp del]
declare decode_node.simps [simp del]

section \<open>The template parameter in general\<close>

text \<open>
  \<open>encode\<close> depends on \<open>T\<close> in two places: \<open>operator<\<close> orders the keys of the two
  maps, and \<open>to_bits<T>\<close> serialises the value of a leaf.  \<open>encode_with\<close> is the same
  function for any symbol type with a linear order, given the serialisation of a symbol;
  \<open>encode\<close> above is its instance for an unsigned \<open>T\<close> (\<open>encode_eq_encode_with\<close>).
  For a signed integer type, such as \<open>char\<close> where it is signed (\<open>demo.cpp\<close> encodes a
  \<open>std::vector<char>\<close>), \<open>operator<\<close> compares the signed values: \<open>encode_signed\<close> keys
  the maps by \<open>sint\<close> of the bit pattern and serialises the pattern.  \<open>decode\<close> never
  compares symbols and is the same for both.
\<close>

fun encode_tree_with :: "('s \<Rightarrow> bool list) \<Rightarrow> 's node \<Rightarrow> bool list" where
  "encode_tree_with bits_of (Leaf v f) = True # bits_of v"
| "encode_tree_with bits_of (Internal vs f l r) =
     False # encode_tree_with bits_of l @ encode_tree_with bits_of r"

definition encode_with :: "('s::linorder \<Rightarrow> bool list) \<Rightarrow> 's list \<Rightarrow> fault + bool list" where
  "encode_with bits_of data =
     (let (nodes, encoding_lut) = build data
      in case nodes of
           [] \<Rightarrow> Inl Undefined_behaviour
         | tree # _ \<Rightarrow>
             Inr (encode_tree_with bits_of tree
                  @ concat (map (\<lambda>value. rev (lut_get encoding_lut value)) data)))"

definition encode_signed :: "bool \<Rightarrow> 'a::len word list \<Rightarrow> fault + bool list" where
  "encode_signed le data =
     encode_with (\<lambda>i. to_bits le (word_of_int i :: 'a word)) (map sint data)"

section \<open>Notions used to state the properties\<close>

text \<open>
  \<open>leaves\<close> lists the symbols at the leaves of a tree from left to right; \<open>codes\<close> pairs
  every leaf symbol with its root-to-leaf code, \<open>False\<close> for a step to the first child
  (\<open>l\<close>) and \<open>True\<close> for a step to the second (\<open>r\<close>).  \<open>code_of lut v\<close> is what
  \<open>encode\<close> appends to the output for the symbol \<open>v\<close>.
\<close>

fun leaves :: "'a node \<Rightarrow> 'a list" where
  "leaves (Leaf v f) = [v]"
| "leaves (Internal vs f l r) = leaves l @ leaves r"

fun codes :: "'a node \<Rightarrow> ('a \<times> bool list) list" where
  "codes (Leaf v f) = [(v, [])]"
| "codes (Internal vs f l r) =
     map (\<lambda>(v, c). (v, False # c)) (codes l) @ map (\<lambda>(v, c). (v, True # c)) (codes r)"

fun children :: "'a node \<Rightarrow> 'a node list" where
  "children (Leaf v f) = []"
| "children (Internal vs f l r) = [l, r]"

fun subtrees :: "'a node \<Rightarrow> 'a node list" where
  "subtrees (Leaf v f) = [Leaf v f]"
| "subtrees (Internal vs f l r) = Internal vs f l r # subtrees l @ subtrees r"

definition full_binary :: "'a node \<Rightarrow> bool" where
  "full_binary t = list_all (\<lambda>n. is_end n \<or> length (children n) = 2) (subtrees t)"

definition code_of :: "('a \<rightharpoonup> bool list) \<Rightarrow> 'a \<Rightarrow> bool list" where
  "code_of lut v = rev (lut_get lut v)"

text \<open>\<open>descend t bits\<close> is the node of the decoder's tree that the bits lead to from
  \<open>t\<close>, \<open>False\<close> to \<open>sub_nodes.first\<close> and \<open>True\<close> to \<open>sub_nodes.second\<close>; there is none
  below a node with \<open>end = true\<close>.\<close>

fun descend :: "'a dnode \<Rightarrow> bool list \<Rightarrow> 'a dnode option" where
  "descend t [] = Some t"
| "descend (DLeaf v) (b # bs) = None"
| "descend (DInternal first second) (b # bs) = descend (if b then second else first) bs"

text \<open>The invariant of the merge loop, on the pair of the node list and the table.\<close>

definition merge_inv :: "'a node list \<times> ('a \<rightharpoonup> bool list) \<Rightarrow> bool" where
  "merge_inv s =
     ((\<forall>n\<in>set (fst s). values_of n = leaves n) \<and>
      distinct (concat (map leaves (fst s))) \<and>
      (\<forall>n\<in>set (fst s). \<forall>(v, c)\<in>set (codes n). lut_get (snd s) v = rev c) \<and>
      sorted_wrt (\<lambda>a b. freq b \<le> freq a) (fst s) \<and> fst s \<noteq> [])"

text \<open>\<open>strip t\<close> is the tree \<open>decode\<close> rebuilds from the serialisation of \<open>t\<close>: the
  same shape and leaf symbols, without \<open>values\<close> and \<open>freq\<close>.\<close>

fun strip :: "'a node \<Rightarrow> 'a dnode" where
  "strip (Leaf v f) = DLeaf v"
| "strip (Internal vs f l r) = DInternal (strip l) (strip r)"

text \<open>
  The bytes of a frame: \<open>pack_from j bits\<close> has bit \<open>7 - j\<close> set when the first of
  \<open>bits\<close> is set, bit \<open>7 - j - 1\<close> when the second is, and so on; \<open>packed_byte data j\<close>
  is byte \<open>j\<close> of the packed bits of \<open>data\<close>, zero where \<open>data\<close> has ended.
  \<open>write_step\<close> names the body of the loop of \<open>write_data\<close>.
\<close>

fun pack_from :: "nat \<Rightarrow> bool list \<Rightarrow> byte" where
  "pack_from j [] = 0"
| "pack_from j (b # bs) = (if b then drop_bit j 0x80 else 0) OR pack_from (Suc j) bs"

definition packed_byte :: "bool list \<Rightarrow> nat \<Rightarrow> byte" where
  "packed_byte data j = pack_from 0 (take 8 (drop (8 * j) data))"

definition write_step :: "bool list \<Rightarrow> byte \<times> bool \<times> byte list \<Rightarrow> nat \<Rightarrow> byte \<times> bool \<times> byte list" where
  "write_step data = (\<lambda>(byte, pad, file) i.
      let bit = i mod 8;
          byte = (if data ! i then byte OR drop_bit bit (0x80 :: byte) else byte)
      in if bit = 7 then (0, False, file @ [byte]) else (byte, True, file))"

section \<open>Properties of the primitive codec\<close>

lemma byte_bits_bit: "byte_bits b = map (\<lambda>j. bit b (7 - j)) [0..<8]"
  unfolding byte_bits_def
  by (simp add: bit_iff_odd_drop_bit and_one_eq mod_2_eq_odd)

lemma length_byte_bits: "length (byte_bits b) = 8"
  by (simp add: byte_bits_def)

lemma upt_0_Suc_Cons: "[0..<Suc n] = 0 # map Suc [0..<n]"
  by (simp add: upt_conv_Cons map_Suc_upt del: upt_Suc)

lemma le_bytes_Suc: "le_bytes (Suc n) v = ucast v # le_bytes n (drop_bit 8 v)"
  unfolding le_bytes_def upt_0_Suc_Cons
  by (simp add: o_def add.commute del: upt_Suc)

lemma le_bytes_0: "le_bytes 0 v = []"
  by (simp add: le_bytes_def)

lemma length_le_bytes: "length (le_bytes n v) = n"
  by (simp add: le_bytes_def)

lemma le_value_le_bytes_take: "(le_value (le_bytes n v) :: 'a::len word) = take_bit (8 * n) (v :: 'a word)"
proof (induction n arbitrary: v)
  case 0
  then show ?case by (simp add: le_bytes_0)
next
  case (Suc n)
  show ?case
    unfolding le_bytes_Suc le_value.simps Suc.IH
    by (rule bit_eqI) (auto simp: bit_simps)
qed

lemma le_value_le_bytes: "LENGTH('a) \<le> 8 * n \<Longrightarrow> (le_value (le_bytes n v) :: 'a::len word) = v"
  by (simp add: le_value_le_bytes_take take_bit_word_eq_self)

lemma bit_0x80_int: "bit (0x80 :: int) m = (m = 7)"
proof -
  have h: "(0x80 :: int) = 2 ^ 7" by simp
  show ?thesis unfolding h by (simp only: bit_exp_iff) auto
qed

lemma mask_bit_0x80: "bit (drop_bit j (0x80 :: byte)) q = (q + j = 7)"
  by (auto simp add: bit_drop_bit_eq bit_0x80_int add.commute)

lemma set_bits_step_bit:
  "bit (foldl (\<lambda>byte j. if data ! unat (start + of_nat j) then byte OR drop_bit j (0x80 :: byte)
                         else byte AND NOT (drop_bit j 0x80)) b js) q
         = (if q < 8 \<and> 7 - q \<in> set js then data ! unat (start + of_nat (7 - q)) else bit b q)"
proof (induction js arbitrary: b)
  case Nil
  then show ?case by simp
next
  case (Cons j js)
  have q8: "bit (x::byte) q \<Longrightarrow> q < 8" for x by (auto dest: bit_imp_le_length)
  have e: "q < 8 \<Longrightarrow> (q + j = 7) = (7 - q = j)" by auto
  show ?case
    by (auto simp: Cons.IH bit_simps bit_0x80_int dest: q8)
qed

lemma set_bits_bit:
  "bit (set_bits data start b) q = (q < 8 \<and> data ! unat (start + of_nat (7 - q)))"
  unfolding set_bits_def Let_def
  by (subst set_bits_step_bit) (auto dest: bit_imp_le_length)


lemma set_bits_indep: "set_bits data start b = set_bits data start 0"
  by (rule bit_eqI) (simp add: set_bits_bit)

lemma length_foldl_update:
  "length (foldl (\<lambda>out i. out[k i := D i]) init js) = length init"
  by (induction js arbitrary: init) simp_all

lemma nth_foldl_update:
  "p < length init \<Longrightarrow>
   (foldl (\<lambda>out i. out[i := D i]) init js) ! p = (if p \<in> set js then D p else init ! p)"
  by (induction js arbitrary: init) (auto simp: nth_list_update)

lemma foldl_update_all:
  assumes "set js = {0..<n}" "length init = n"
  shows "foldl (\<lambda>out i. out[i := D i]) init js = map D [0..<n]"
  using assms
  by (intro nth_equalityI) (simp_all add: length_foldl_update nth_foldl_update)

lemma foldl_update_mirror:
  "foldl (\<lambda>out i. out[n - i - 1 := D i]) (replicate n z) [0..<n] = rev (map D [0..<n])"
proof -
  have "foldl (\<lambda>out i. out[n - i - 1 := D i]) init js
      = foldl (\<lambda>out j. out[j := D (n - j - 1)]) init (map (\<lambda>i. n - i - 1) js)"
    if "set js \<subseteq> {0..<n}" for js init
    using that by (induction js arbitrary: init) simp_all
  then have "foldl (\<lambda>out i. out[n - i - 1 := D i]) (replicate n z) [0..<n]
      = foldl (\<lambda>out j. out[j := D (n - j - 1)]) (replicate n z) (map (\<lambda>i. n - i - 1) [0..<n])"
    by simp
  also have "\<dots> = map (\<lambda>j. D (n - j - 1)) [0..<n]"
  proof (rule foldl_update_all)
    show "set (map (\<lambda>i. n - i - 1) [0..<n]) = {0..<n}"
    proof (intro equalityI subsetI)
      fix x assume "x \<in> {0..<n}"
      then have "x = n - (n - x - 1) - 1" "n - x - 1 < n" by auto
      then show "x \<in> set (map (\<lambda>i. n - i - 1) [0..<n])"
        by (metis (no_types, lifting) atLeast0LessThan image_eqI lessThan_iff list.set_map set_upt)
    qed auto
  qed simp
  also have "\<dots> = rev (map D [0..<n])"
    by (intro nth_equalityI) (simp_all add: rev_nth)
  finally show ?thesis .
qed

lemma to_bits_le_bytes: "to_bits le v = concat (map byte_bits (le_bytes (sizeof v) v))"
proof -
  let ?n = "sizeof v" and ?bs = "le_bytes (sizeof v) v"
  have len: "length ?bs = ?n" by (simp add: length_le_bytes)
  have "map (\<lambda>i. byte_bits (if le then object_bytes le v ! i else object_bytes le v ! (?n - i - 1))) [0..<?n]
      = map (\<lambda>i. byte_bits (?bs ! i)) [0..<?n]"
    by (rule map_cong) (auto simp: object_bytes_def rev_nth len)
  also have "\<dots> = map byte_bits ?bs"
    by (intro nth_equalityI) (simp_all add: len)
  finally show ?thesis by (simp add: to_bits_def Let_def)
qed

lemma to_bits_host_independent: "to_bits le v = to_bits le' v"
  by (simp add: to_bits_le_bytes)

lemma length_concat_byte_bits: "length (concat (map byte_bits bs)) = 8 * length bs"
  by (induction bs) (simp_all add: length_byte_bits)

lemma length_to_bits: "length (to_bits le v) = 8 * sizeof v"
  by (simp add: to_bits_le_bytes length_concat_byte_bits length_le_bytes)

lemma nth_concat_byte_bits:
  "i < length bs \<Longrightarrow> j < 8 \<Longrightarrow> concat (map byte_bits bs) ! (8 * i + j) = bit (bs ! i) (7 - j)"
proof (induction bs arbitrary: i)
  case Nil
  then show ?case by simp
next
  case (Cons b bs)
  show ?case
  proof (cases i)
    case 0
    with Cons.prems show ?thesis
      by (simp add: nth_append length_byte_bits) (simp add: byte_bits_bit)
  next
    case (Suc i')
    with Cons.prems Cons.IH[of i'] show ?thesis
      by (simp add: nth_append length_byte_bits)
  qed
qed


lemma unat_of_nat64: "n < 2 ^ 64 \<Longrightarrow> unat (of_nat n :: size_t) = n"
  by (simp add: unat_of_nat)

lemma from_bits_check:
  assumes "s \<le> length data" "length data < 2 ^ 64" "m < 2 ^ 64"
  shows "((of_nat (length data) - of_nat s :: size_t) < of_nat m) = (length data - s < m)"
proof -
  have h: "(of_nat (length data) - of_nat s :: size_t) = of_nat (length data - s)"
    using assms(1) by simp
  have "length data - s < 2 ^ 64" using assms by simp
  then have "unat (of_nat (length data - s) :: size_t) = length data - s"
    by (rule unat_of_nat64)
  then show ?thesis
    unfolding h using assms(3) by (simp only: word_less_nat_alt unat_of_nat64)
qed

lemma unat_index:
  "s + k < 2 ^ 64 \<Longrightarrow> unat (of_nat s + of_nat k :: size_t) = s + k"
  using unat_of_nat64[of "s + k"] by simp

lemma from_bits_result:
  assumes s: "s + 8 * (LENGTH('a) div 8) \<le> length data" and len: "length data < 2 ^ 64"
  shows "(from_bits le data (of_nat s) :: fault + 'a::len word)
       = Inr (le_value (map (\<lambda>i. set_bits data (of_nat s + of_nat (8 * i)) 0) [0..<LENGTH('a) div 8]))"
proof -
  let ?n = "LENGTH('a) div 8"
  let ?G = "\<lambda>i. set_bits data (of_nat s + of_nat (8 * i)) 0"
  have n8: "?n * 8 < 2 ^ 64" using s len by simp
  have chk: "\<not> (of_nat (length data) - of_nat s :: size_t) < of_nat (?n * 8)"
    using s len n8 by (subst from_bits_check) simp_all
  have inb: "list_all (\<lambda>k. unat (of_nat s + of_nat k :: size_t) < length data) [0..<?n * 8]"
    unfolding list_all_iff
  proof
    fix k assume "k \<in> set [0..<?n * 8]"
    then have "s + k < length data" using s by simp
    moreover from this have "s + k < 2 ^ 64" using len by simp
    ultimately show "unat (of_nat s + of_nat k :: size_t) < length data"
      by (simp add: unat_index)
  qed
  have fold_le: "foldl (\<lambda>out i. let k = (if True then i else ?n - i - 1)
                     in out[k := set_bits data (of_nat s + of_nat (8 * i)) (out ! k)])
                   (replicate ?n 0) [0..<?n] = map ?G [0..<?n]"
    by (simp only: Let_def if_True set_bits_indep[of _ _ "_ ! _"])
       (simp add: foldl_update_all)
  have fold_be: "foldl (\<lambda>out i. let k = (if False then i else ?n - i - 1)
                     in out[k := set_bits data (of_nat s + of_nat (8 * i)) (out ! k)])
                   (replicate ?n 0) [0..<?n] = rev (map ?G [0..<?n])"
    by (simp only: Let_def if_False set_bits_indep[of _ _ "_ ! _"] foldl_update_mirror)
  show ?thesis
  proof (cases le)
    case True
    then show ?thesis
      unfolding from_bits_def Let_def using chk inb fold_le
      by (simp add: object_value_def Let_def)
  next
    case False
    then show ?thesis
      unfolding from_bits_def Let_def using chk inb fold_be
      by (simp add: object_value_def Let_def)
  qed
qed


lemma from_bits_too_small:
  assumes "s \<le> length data" "length data < 2 ^ 64" "length data - s < 8 * (LENGTH('a) div 8)"
    and "LENGTH('a) < 2 ^ 64"
  shows "(from_bits le data (of_nat s) :: fault + 'a::len word)
       = Inl (Runtime_error ''from_bits: input data too small.'')"
proof -
  have "(LENGTH('a) div 8) * 8 \<le> LENGTH('a)" by simp
  then have "(LENGTH('a) div 8) * 8 < 2 ^ 64" using assms(4) by (rule le_less_trans)
  then have "(of_nat (length data) - of_nat s :: size_t) < of_nat ((LENGTH('a) div 8) * 8)"
    using assms by (subst from_bits_check) (simp_all add: mult.commute)
  then show ?thesis
    unfolding from_bits_def Let_def by (simp only: if_True)
qed

lemma from_bits_to_bits:
  fixes v :: "'a::len word"
  assumes dvd: "8 dvd LENGTH('a)" and len: "length (pre @ to_bits le v @ post) < 2 ^ 64"
  shows "from_bits le (pre @ to_bits le v @ post) (of_nat (length pre)) = Inr v"
proof -
  let ?n = "LENGTH('a) div 8" and ?data = "pre @ to_bits le v @ post" and ?s = "length pre"
  let ?bs = "le_bytes ?n v"
  have n: "sizeof v = ?n" by (simp add: sizeof_def)
  have lb: "length (to_bits le v) = 8 * ?n" by (simp add: length_to_bits n)
  have s: "?s + 8 * ?n \<le> length ?data" by (simp add: lb)
  have G: "set_bits ?data (of_nat ?s + of_nat (8 * i)) 0 = ?bs ! i" if i: "i < ?n" for i
  proof (rule bit_eqI)
    fix q
    show "bit (set_bits ?data (of_nat ?s + of_nat (8 * i)) 0) q = bit (?bs ! i) q"
    proof (cases "q < 8")
      case True
      have b: "?s + (8 * i + (7 - q)) < 2 ^ 64" using len i True by (simp add: lb)
      have k: "8 * i + (7 - q) < length (to_bits le v)" using i True by (simp add: lb)
      have "unat (of_nat ?s + of_nat (8 * i) + of_nat (7 - q) :: size_t) = ?s + (8 * i + (7 - q))"
        using unat_index[OF b] by (simp add: add.assoc)
      moreover have "?data ! (?s + (8 * i + (7 - q))) = to_bits le v ! (8 * i + (7 - q))"
        using k by (simp add: nth_append)
      moreover have "to_bits le v ! (8 * i + (7 - q)) = bit (?bs ! i) (7 - (7 - q))"
        unfolding to_bits_le_bytes n using i True
        by (intro nth_concat_byte_bits) (simp_all add: length_le_bytes)
      ultimately show ?thesis using True by (simp add: set_bits_bit)
    next
      case False
      then show ?thesis by (auto simp: set_bits_bit dest: bit_imp_le_length)
    qed
  qed
  have "map (\<lambda>i. set_bits ?data (of_nat ?s + of_nat (8 * i)) 0) [0..<?n] = ?bs"
    by (intro nth_equalityI) (simp_all add: length_le_bytes G del: of_nat_mult)
  moreover have "LENGTH('a) \<le> 8 * ?n" using dvd by auto
  ultimately show ?thesis
    using from_bits_result[OF s len, of le] by (simp add: le_value_le_bytes)
qed


lemma to_bytes_le_bytes: "to_bytes le v = le_bytes (sizeof v) v"
proof -
  let ?n = "sizeof v" and ?bs = "le_bytes (sizeof v) v"
  have len: "length ?bs = ?n" by (simp add: length_le_bytes)
  have "map (\<lambda>i. ?bs ! i) [0..<?n] = ?bs"
    by (intro nth_equalityI) (simp_all add: len)
  moreover have "map (\<lambda>i. rev ?bs ! i) (rev [0..<?n]) = ?bs"
    by (intro nth_equalityI) (simp_all add: len rev_nth)
  ultimately show ?thesis
    by (simp add: to_bytes_def object_bytes_def Let_def)
qed

lemma from_bytes_result:
  assumes s: "s + LENGTH('a) div 8 \<le> length data" and len: "length data < 2 ^ 64"
  shows "(from_bytes le data (of_nat s) :: fault + 'a::len word)
       = Inr (object_value le (take (LENGTH('a) div 8) (drop s data)))"
proof -
  let ?n = "LENGTH('a) div 8"
  let ?D = "\<lambda>i. data ! unat (of_nat s + of_nat i :: size_t)"
  have n: "?n < 2 ^ 64" using s len by simp
  have chk: "\<not> (of_nat (length data) - of_nat s :: size_t) < of_nat ?n"
    using s len n by (subst from_bits_check) simp_all
  have idx: "unat (of_nat s + of_nat i :: size_t) = s + i" if "i < ?n" for i
    using that s len by (intro unat_index) simp
  have inb: "list_all (\<lambda>i. unat (of_nat s + of_nat i :: size_t) < length data) [0..<?n]"
    unfolding list_all_iff using s by (auto simp: idx)
  have "set (if le then [0..<?n] else rev [0..<?n]) = {0..<?n}" by simp
  then have "foldl (\<lambda>out i. out[i := ?D i]) (replicate ?n 0) (if le then [0..<?n] else rev [0..<?n])
       = map ?D [0..<?n]"
    by (rule foldl_update_all) simp
  also have "\<dots> = take ?n (drop s data)"
    using s by (intro nth_equalityI) (simp_all add: idx)
  finally show ?thesis
    unfolding from_bytes_def Let_def using chk inb by simp
qed

lemma from_bytes_too_small:
  assumes "s \<le> length data" "length data < 2 ^ 64" "length data - s < LENGTH('a) div 8"
    and "LENGTH('a) < 2 ^ 64"
  shows "(from_bytes le data (of_nat s) :: fault + 'a::len word)
       = Inl (Runtime_error ''from_bytes: input data too small.'')"
proof -
  have "LENGTH('a) div 8 \<le> LENGTH('a)" by simp
  then have "LENGTH('a) div 8 < 2 ^ 64" using assms(4) by (rule le_less_trans)
  then have "(of_nat (length data) - of_nat s :: size_t) < of_nat (LENGTH('a) div 8)"
    using assms by (subst from_bits_check) simp_all
  then show ?thesis
    unfolding from_bytes_def Let_def by (simp only: if_True)
qed

lemma from_bytes_to_bytes_little_endian_host:
  fixes v :: "'a::len word"
  assumes dvd: "8 dvd LENGTH('a)" and len: "length (pre @ to_bytes True v @ post) < 2 ^ 64"
  shows "from_bytes True (pre @ to_bytes True v @ post) (of_nat (length pre)) = Inr v"
proof -
  let ?n = "LENGTH('a) div 8"
  have n: "sizeof v = ?n" by (simp add: sizeof_def)
  have tb: "to_bytes True v = le_bytes ?n v" by (simp add: to_bytes_le_bytes n)
  have s: "length pre + ?n \<le> length (pre @ to_bytes True v @ post)"
    by (simp add: tb length_le_bytes)
  have "LENGTH('a) \<le> 8 * ?n" using dvd by auto
  then show ?thesis
    using from_bytes_result[OF s len, of True]
    by (simp add: tb length_le_bytes object_value_def le_value_le_bytes)
qed

section \<open>Properties of the encoder\<close>

lemma map_fst_codes: "map fst (codes t) = leaves t"
  by (induction t) (simp_all add: case_prod_unfold o_def)

lemma codes_prefix_free:
  "(a, ca) \<in> set (codes t) \<Longrightarrow> (b, cb) \<in> set (codes t) \<Longrightarrow> distinct (leaves t) \<Longrightarrow> prefix ca cb \<Longrightarrow> a = b"
proof (induction t arbitrary: ca cb)
  case (Leaf v f)
  then show ?case by simp
next
  case (Internal vs f l r)
  then show ?case by (fastforce)
qed

lemma keys_incr: "set (map fst (incr k m)) = insert k (set (map fst m))"
proof (induction m)
  case Nil
  show ?case by simp
next
  case (Cons e m)
  obtain k' c where e: "e = (k', c)" by (cases e)
  have "set (map fst (incr k (e # m))) =
        (if k < k' then insert k (insert k' (set (map fst m)))
         else if k = k' then insert k' (set (map fst m))
         else insert k' (set (map fst (incr k m))))"
    unfolding e by simp
  then show ?case unfolding Cons.IH e by auto
qed

lemma sorted_incr: "sorted_wrt (<) (map fst m) \<Longrightarrow> sorted_wrt (<) (map fst (incr k m))"
proof (induction m)
  case Nil
  then show ?case by simp
next
  case (Cons e m)
  obtain k' c where e: "e = (k', c)" by (cases e)
  from Cons have 1: "\<forall>x\<in>set (map fst m). k' < x" and 2: "sorted_wrt (<) (map fst (incr k m))"
    unfolding e by simp_all
  show ?case
  proof (cases "k < k'")
    case True
    with Cons.prems 1 show ?thesis unfolding e by auto
  next
    case False
    show ?thesis
    proof (cases "k = k'")
      case True
      with Cons.prems show ?thesis unfolding e by simp
    next
      case False
      with \<open>\<not> k < k'\<close> have "k' < k" by simp
      with 1 have "\<forall>x\<in>set (map fst (incr k m)). k' < x"
        unfolding keys_incr by simp
      with 2 False \<open>\<not> k < k'\<close> show ?thesis unfolding e by simp
    qed
  qed
qed

lemma freq_table_fold:
  "sorted_wrt (<) (map fst m) \<Longrightarrow>
   sorted_wrt (<) (map fst (foldl (\<lambda>m x. incr x m) m data)) \<and>
   set (map fst (foldl (\<lambda>m x. incr x m) m data)) = set (map fst m) \<union> set data"
  by (induction data arbitrary: m) (simp_all add: sorted_incr keys_incr del: set_map)

lemma freq_table_keys: "set (map fst (freq_table data)) = set data"
  using freq_table_fold[of "[]" data] by (simp add: freq_table_def)

lemma freq_table_sorted: "sorted_wrt (<) (map fst (freq_table data))"
  using freq_table_fold[of "[]" data] by (simp add: freq_table_def)

lemma freq_table_distinct: "distinct (map fst (freq_table data))"
  using freq_table_sorted[of data] by (simp add: strict_sorted_iff)


lemma set_insert_node: "set (insert_node p ns) = insert p (set ns)"
  by (induction ns) auto

lemma mset_leaves_insert_node:
  "mset (concat (map leaves (insert_node p ns))) = mset (leaves p) + mset (concat (map leaves ns))"
  by (induction ns) simp_all

lemma sorted_insert_node:
  "sorted_wrt (\<lambda>a b. freq b \<le> freq a) ns \<Longrightarrow> sorted_wrt (\<lambda>a b. freq b \<le> freq a) (insert_node p ns)"
proof (induction ns)
  case Nil
  then show ?case by simp
next
  case (Cons n ns)
  show ?case
  proof (cases "freq n \<le> freq p")
    case True
    with Cons.prems show ?thesis by auto
  next
    case False
    with Cons show ?thesis by (auto simp: set_insert_node)
  qed
qed

lemma lut_get_push: "lut_get (lut_push b lut v) w = (if w = v then lut_get lut v @ [b] else lut_get lut w)"
  by (simp add: lut_push_def lut_get_def)

lemma lut_get_foldl_push:
  "distinct vs \<Longrightarrow>
   lut_get (foldl (lut_push b) lut vs) w = (if w \<in> set vs then lut_get lut w @ [b] else lut_get lut w)"
  by (induction vs arbitrary: lut) (auto simp: lut_get_push)

lemma last_two:
  assumes "2 \<le> length nodes"
  shows "nodes = butlast (butlast nodes) @ [last (butlast nodes), last nodes]"
proof -
  from assms have a: "nodes \<noteq> []" by auto
  with assms have b: "butlast nodes \<noteq> []" by (cases nodes) (auto split: if_splits)
  have "nodes = butlast nodes @ [last nodes]" using a by simp
  also have "butlast nodes = butlast (butlast nodes) @ [last (butlast nodes)]" using b by simp
  finally show ?thesis by simp
qed

lemma merge_step_nodes:
  "fst (merge_step (nodes, lut)) =
     insert_node (parent_node (last nodes) (last (butlast nodes))) (butlast (butlast nodes))"
  by (simp add: merge_step_def Let_def)

lemma merge_step_lut:
  "snd (merge_step (nodes, lut)) =
     foldl (lut_push True) (foldl (lut_push False) lut (values_of (last nodes)))
       (values_of (last (butlast nodes)))"
  by (simp add: merge_step_def Let_def)

lemma merge_step_leaves:
  assumes "2 \<le> length nodes"
  shows "mset (concat (map leaves (fst (merge_step (nodes, lut))))) = mset (concat (map leaves nodes))"
proof -
  let ?l = "last nodes" and ?r = "last (butlast nodes)" and ?rest = "butlast (butlast nodes)"
  have "mset (concat (map leaves (fst (merge_step (nodes, lut)))))
      = mset (leaves ?l) + mset (leaves ?r) + mset (concat (map leaves ?rest))"
    by (simp add: merge_step_nodes mset_leaves_insert_node parent_node_def)
  also have "\<dots> = mset (concat (map leaves (?rest @ [?r, ?l])))"
    by simp
  finally show ?thesis using last_two[OF assms] by simp
qed

lemma merge_step_inv:
  assumes inv: "merge_inv (nodes, lut)" and len: "2 \<le> length nodes"
  shows "merge_inv (merge_step (nodes, lut))"
proof -
  let ?l = "last nodes" and ?r = "last (butlast nodes)" and ?rest = "butlast (butlast nodes)"
  let ?p = "parent_node ?l ?r"
  let ?lut1 = "foldl (lut_push False) lut (values_of ?l)"
  let ?lut2 = "foldl (lut_push True) ?lut1 (values_of ?r)"
  note nodes = last_two[OF len]
  have "set nodes = set (?rest @ [?r, ?l])"
    using nodes by (rule arg_cong)
  then have mem: "?l \<in> set nodes" "?r \<in> set nodes" "set ?rest \<subseteq> set nodes"
    by auto
  from inv have vals: "\<And>n. n \<in> set nodes \<Longrightarrow> values_of n = leaves n"
    and dist: "distinct (concat (map leaves nodes))"
    and cod: "\<And>n v c. n \<in> set nodes \<Longrightarrow> (v, c) \<in> set (codes n) \<Longrightarrow> lut_get lut v = rev c"
    and srt: "sorted_wrt (\<lambda>a b. freq b \<le> freq a) nodes"
    by (auto simp: merge_inv_def)
  from dist have d: "distinct (concat (map leaves (?rest @ [?r, ?l])))"
    using nodes by simp
  then have dl: "distinct (leaves ?l)" and dr: "distinct (leaves ?r)"
    and lr: "set (leaves ?l) \<inter> set (leaves ?r) = {}"
    and restl: "\<And>n. n \<in> set ?rest \<Longrightarrow> set (leaves n) \<inter> set (leaves ?l) = {}"
    and restr: "\<And>n. n \<in> set ?rest \<Longrightarrow> set (leaves n) \<inter> set (leaves ?r) = {}"
    by auto
  have vl: "values_of ?l = leaves ?l" and vr: "values_of ?r = leaves ?r"
    using vals mem by auto
  have lut2: "lut_get ?lut2 w =
      (if w \<in> set (leaves ?r) then lut_get lut w @ [True]
       else if w \<in> set (leaves ?l) then lut_get lut w @ [False] else lut_get lut w)" for w
    using lr by (auto simp: vl vr lut_get_foldl_push dl dr)
  have in_leaves: "(v, c) \<in> set (codes n) \<Longrightarrow> v \<in> set (leaves n)"
    for v c and n :: "'a node"
    by (metis map_fst_codes fst_conv image_eqI set_map)
  have fst_eq: "fst (merge_step (nodes, lut)) = insert_node ?p ?rest"
    by (rule merge_step_nodes)
  have snd_eq: "snd (merge_step (nodes, lut)) = ?lut2"
    by (rule merge_step_lut)
  have 1: "\<forall>n\<in>set (insert_node ?p ?rest). values_of n = leaves n"
    using vals mem by (auto simp: set_insert_node parent_node_def)
  have 2: "distinct (concat (map leaves (insert_node ?p ?rest)))"
    using merge_step_leaves[OF len, of lut] dist
    unfolding fst_eq by (metis mset_eq_imp_distinct_iff)
  have 3: "lut_get ?lut2 v = rev c" if n: "n \<in> set (insert_node ?p ?rest)" and vc: "(v, c) \<in> set (codes n)" for n v c
  proof (cases "n = ?p")
    case True
    with vc consider c' where "c = False # c'" "(v, c') \<in> set (codes ?l)"
      | c' where "c = True # c'" "(v, c') \<in> set (codes ?r)"
      by (auto simp: parent_node_def)
    then show ?thesis
    proof cases
      case 1
      then have "v \<in> set (leaves ?l)" by (auto dest: in_leaves)
      moreover from this lr have "v \<notin> set (leaves ?r)" by auto
      moreover have "lut_get lut v = rev c'" using cod[OF mem(1) 1(2)] .
      ultimately show ?thesis using 1 by (simp add: lut2)
    next
      case 2
      then have "v \<in> set (leaves ?r)" by (auto dest: in_leaves)
      moreover have "lut_get lut v = rev c'" using cod[OF mem(2) 2(2)] .
      ultimately show ?thesis using 2 by (simp add: lut2)
    qed
  next
    case False
    with n have nr: "n \<in> set ?rest" by (simp add: set_insert_node)
    from vc have "v \<in> set (leaves n)" by (rule in_leaves)
    with restl[OF nr] restr[OF nr] have "v \<notin> set (leaves ?l)" "v \<notin> set (leaves ?r)" by auto
    moreover have "lut_get lut v = rev c" using cod[OF _ vc] nr mem(3) by auto
    ultimately show ?thesis by (simp add: lut2)
  qed
  have "sorted_wrt (\<lambda>a b. freq b \<le> freq a) (?rest @ [?r, ?l])" using srt nodes by simp
  then have "sorted_wrt (\<lambda>a b. freq b \<le> freq a) ?rest" by (simp add: sorted_wrt_append)
  then have 4: "sorted_wrt (\<lambda>a b. freq b \<le> freq a) (insert_node ?p ?rest)"
    by (rule sorted_insert_node)
  have 5: "insert_node ?p ?rest \<noteq> []"
    by (metis length_insert_node list.size(3) nat.distinct(1))
  show ?thesis
    unfolding merge_inv_def fst_eq snd_eq using 1 2 3 4 5 by auto
qed


lemma merge_loop_inv:
  "merge_inv s \<Longrightarrow>
   merge_inv (merge_loop s) \<and> length (fst (merge_loop s)) = 1 \<and>
   mset (concat (map leaves (fst (merge_loop s)))) = mset (concat (map leaves (fst s)))"
proof (induction s rule: merge_loop.induct)
  case (1 s)
  show ?case
  proof (cases "length (fst s) \<le> 1")
    case True
    moreover from "1.prems" have "fst s \<noteq> []" by (simp add: merge_inv_def)
    ultimately have "length (fst s) = 1" by (cases "fst s") auto
    with True "1.prems" show ?thesis by (simp add: merge_loop.simps)
  next
    case False
    then have len: "2 \<le> length (fst s)" by simp
    have "merge_inv (merge_step s)"
      using merge_step_inv[of "fst s" "snd s"] "1.prems" len by simp
    from "1.IH"[OF False this] merge_step_leaves[OF len, of "snd s"] False
    show ?thesis by (simp add: merge_loop.simps[of s])
  qed
qed

lemma mset_leaves_perm:
  assumes "mset xs = mset ys"
  shows "mset (concat (map leaves xs)) = mset (concat (map leaves ys))"
proof -
  have "mset (concat (map leaves zs)) = sum_mset (image_mset (\<lambda>n. mset (leaves n)) (mset zs))"
    for zs :: "'a node list"
    by (induction zs) simp_all
  with assms show ?thesis by simp
qed

lemma leaves_initial:
  "concat (map leaves (map (\<lambda>(value, freq). Leaf value freq) m)) = map fst m"
  by (induction m) auto

lemma sorted_sort_nodes: "sorted_wrt (\<lambda>a b. freq b \<le> freq a) (sort_nodes ns)"
proof -
  have "sorted (map (\<lambda>n. - int (freq n)) (sort_nodes ns))"
    unfolding sort_nodes_def by (rule sorted_sort_key)
  then show ?thesis
    by (simp add: sorted_map) 
qed

lemma initial_inv:
  assumes "data \<noteq> []"
  shows "merge_inv (sort_nodes (map (\<lambda>(value, freq). Leaf value freq) (freq_table data)), Map.empty)"
proof -
  let ?ns = "map (\<lambda>(value, freq). Leaf value freq) (freq_table data)"
  have m: "mset (sort_nodes ?ns) = mset ?ns" by (simp add: sort_nodes_def)
  have "mset (concat (map leaves (sort_nodes ?ns))) = mset (map fst (freq_table data))"
    using mset_leaves_perm[OF m] by (simp only: leaves_initial)
  then have d: "distinct (concat (map leaves (sort_nodes ?ns)))"
    using freq_table_distinct[of data] by (metis mset_eq_imp_distinct_iff)
  have l: "\<exists>v f. n = Leaf v f" if "n \<in> set (sort_nodes ?ns)" for n
    using that by (auto simp: sort_nodes_def)
  have "set (map fst (freq_table data)) \<noteq> {}"
    using assms by (simp only: freq_table_keys) simp
  then have "freq_table data \<noteq> []" by auto
  moreover have "length (sort_nodes ?ns) = length (freq_table data)"
    by (simp add: sort_nodes_def)
  ultimately have ne: "sort_nodes ?ns \<noteq> []"
    by (metis length_0_conv)
  show ?thesis
    unfolding merge_inv_def using d ne sorted_sort_nodes[of ?ns] l
    by (fastforce simp: lut_get_def)
qed

lemma initial_leaves:
  "set (concat (map leaves (sort_nodes (map (\<lambda>(value, freq). Leaf value freq) (freq_table data))))) = set data"
proof -
  let ?ns = "map (\<lambda>(value, freq). Leaf value freq) (freq_table data)"
  have m: "mset (sort_nodes ?ns) = mset ?ns" by (simp add: sort_nodes_def)
  have "mset (concat (map leaves (sort_nodes ?ns))) = mset (map fst (freq_table data))"
    using mset_leaves_perm[OF m] by (simp only: leaves_initial)
  then have "set (concat (map leaves (sort_nodes ?ns))) = set (map fst (freq_table data))"
    by (rule mset_eq_setD)
  then show ?thesis by (simp only: freq_table_keys)
qed

lemma build_tree:
  assumes "data \<noteq> []"
  obtains tree lut where "build data = ([tree], lut)"
    and "values_of tree = leaves tree" and "distinct (leaves tree)"
    and "set (leaves tree) = set data"
    and "\<And>v c. (v, c) \<in> set (codes tree) \<Longrightarrow> rev (lut_get lut v) = c"
proof -
  let ?s0 = "(sort_nodes (map (\<lambda>(value, freq). Leaf value freq) (freq_table data)), Map.empty)"
  from merge_loop_inv[OF initial_inv[OF assms]]
  have inv: "merge_inv (build data)" and len: "length (fst (build data)) = 1"
    and ms: "mset (concat (map leaves (fst (build data)))) = mset (concat (map leaves (fst ?s0)))"
    by (simp_all add: build_def)
  from len obtain tree where t: "fst (build data) = [tree]"
    by (cases "fst (build data)") auto
  then have b: "build data = ([tree], snd (build data))"
    by (metis prod.collapse)
  from ms have "set (concat (map leaves (fst (build data)))) = set (concat (map leaves (fst ?s0)))"
    by (rule mset_eq_setD)
  then have s: "set (leaves tree) = set data"
    unfolding t using initial_leaves[of data] by simp
  from inv t have v: "values_of tree = leaves tree" and d: "distinct (leaves tree)"
    and c: "\<And>v c. (v, c) \<in> set (codes tree) \<Longrightarrow> rev (lut_get (snd (build data)) v) = c"
    by (auto simp: merge_inv_def)
  show ?thesis by (rule that[OF b v d s c])
qed

lemma full_binary_all: "full_binary t"
  unfolding full_binary_def by (induction t) simp_all

lemma insert_node_split:
  assumes "sorted_wrt (\<lambda>a b. freq b \<le> freq a) ns"
  shows "\<exists>pre post. insert_node p ns = pre @ p # post \<and> pre @ post = ns \<and>
           list_all (\<lambda>n. freq p < freq n) pre \<and> list_all (\<lambda>n. freq n \<le> freq p) post"
  using assms
proof (induction ns)
  case Nil
  show ?case by simp
next
  case (Cons n ns)
  show ?case
  proof (cases "freq n \<le> freq p")
    case True
    with Cons.prems have "list_all (\<lambda>m. freq m \<le> freq p) (n # ns)"
      by (auto simp: list_all_iff)
    with True show ?thesis
      by (intro exI[of _ "[]"] exI[of _ "n # ns"]) simp
  next
    case False
    from Cons obtain pre post where s: "insert_node p ns = pre @ p # post" "pre @ post = ns"
      "list_all (\<lambda>n. freq p < freq n) pre" "list_all (\<lambda>n. freq n \<le> freq p) post"
      by auto
    with False show ?thesis
      by (intro exI[of _ "n # pre"] exI[of _ post]) simp
  qed
qed

lemma sort_nodes_stable:
  "filter (\<lambda>n. freq n = k) (sort_nodes ns) = filter (\<lambda>n. freq n = k) ns"
proof -
  have "filter (\<lambda>n. - int (freq n) = - int k) (sort_nodes ns)
      = filter (\<lambda>n. - int (freq n) = - int k) ns"
    unfolding sort_nodes_def by (rule sort_key_stable)
  then show ?thesis by simp
qed

lemma encode_tree_host_independent: "encode_tree le t = encode_tree le' t"
  by (induction t) (simp_all add: to_bits_host_independent[of le _ le'])

lemma encode_host_independent: "encode le data = encode le' data"
  by (simp add: encode_def encode_tree_host_independent[of le _ le']
        split: prod.splits list.splits)

lemma encode_nonempty:
  assumes "data \<noteq> []"
  shows "\<exists>bits. encode le data = Inr bits"
  by (rule build_tree[OF assms]) (simp add: encode_def)

subsection \<open>The instances of the template\<close>




lemma encode_with_nonempty:
  assumes "data \<noteq> []"
  shows "\<exists>bits. encode_with bits_of data = Inr bits"
  by (rule build_tree[OF assms]) (simp add: encode_with_def)

lemma encode_signed_host_independent: "encode_signed le data = encode_signed le' data"
  by (simp add: encode_signed_def to_bits_host_independent[of le _ le'])

text \<open>The order of the keys decides which tree is built: the two bytes \<open>0x80\<close> and
  \<open>0x01\<close> are encoded differently as unsigned and as signed symbols.\<close>

lemma key_order_changes_output:
  "encode True [0x80, 0x01 :: 8 word]
     = Inr [False, True, True, False, False, False, False, False, False, False,
            True, False, False, False, False, False, False, False, True, False, True] \<and>
   encode_signed True [0x80, 0x01 :: 8 word]
     = Inr [False, True, False, False, False, False, False, False, False, True,
            True, True, False, False, False, False, False, False, False, True, False]"
  by code_simp

subsection \<open>What fixes the output\<close>

text \<open>
  The table that the range-for visits is the list of the distinct symbols in increasing
  key order, each with its number of occurrences; so the table, and with it the tree and
  the code of every symbol, depends on the input only through these numbers.
\<close>

lemma map_of_incr:
  assumes "sorted_wrt (<) (map fst m)"
  shows "map_of (incr k m) = (map_of m)(k \<mapsto> (case map_of m k of None \<Rightarrow> 1 | Some c \<Rightarrow> c + 1))"
  using assms
proof (induction m)
  case Nil
  show ?case by simp
next
  case (Cons e m)
  obtain k' c where e: "e = (k', c)" by (cases e)
  from Cons.prems have gt: "\<forall>x\<in>set (map fst m). k' < x" and srt: "sorted_wrt (<) (map fst m)"
    unfolding e by simp_all
  show ?case
  proof (cases "k < k'")
    case True
    with gt have "k \<notin> set (map fst m)" by auto
    then have "map_of m k = None" by (simp add: map_of_eq_None_iff)
    with True show ?thesis unfolding e by auto
  next
    case False
    show ?thesis
    proof (cases "k = k'")
      case True
      then show ?thesis unfolding e by auto
    next
      case ne: False
      with False Cons.IH[OF srt] show ?thesis unfolding e by (auto simp: fun_upd_twist)
    qed
  qed
qed

lemma map_of_freq_table_fold:
  assumes "sorted_wrt (<) (map fst m)"
  shows "map_of (foldl (\<lambda>m x. incr x m) m data) k =
           (case map_of m k of
              None \<Rightarrow> if k \<in> set data then Some (count_list data k) else None
            | Some c \<Rightarrow> Some (c + count_list data k))"
  using assms
proof (induction data arbitrary: m)
  case Nil
  show ?case by (simp split: option.splits)
next
  case (Cons x data)
  have s: "sorted_wrt (<) (map fst (incr x m))" using Cons.prems by (rule sorted_incr)
  show ?case
    using Cons.IH[OF s] by (auto simp: map_of_incr[OF Cons.prems] split: option.splits)
qed

lemma map_of_freq_table:
  "map_of (freq_table data) k = (if k \<in> set data then Some (count_list data k) else None)"
  using map_of_freq_table_fold[of "[]" data k] by (simp add: freq_table_def)

lemma sorted_assoc_unique:
  fixes xs ys :: "('k::linorder \<times> 'v) list"
  assumes "sorted_wrt (<) (map fst xs)" "sorted_wrt (<) (map fst ys)" "map_of xs = map_of ys"
  shows "xs = ys"
proof -
  from assms(1,2) have d: "distinct (map fst xs)" "distinct (map fst ys)"
    and s: "sorted (map fst xs)" "sorted (map fst ys)"
    by (simp_all add: strict_sorted_iff)
  from d assms(3) have set: "set xs = set ys" by (simp add: map_of_inject_set)
  then have "set (map fst xs) = set (map fst ys)" by simp
  with s d have keys: "map fst xs = map fst ys" by (intro sorted_distinct_set_unique)
  have r: "zs = map (\<lambda>k. (k, the (map_of zs k))) (map fst zs)" if "distinct (map fst zs)"
    for zs :: "('k \<times> 'v) list"
  proof -
    have "map (\<lambda>e. (fst e, the (map_of zs (fst e)))) zs = map (\<lambda>e. e) zs"
    proof (rule map_cong)
      fix e assume "e \<in> set zs"
      then have "map_of zs (fst e) = Some (snd e)"
        using that by (intro map_of_is_SomeI) simp_all
      then show "(fst e, the (map_of zs (fst e))) = e" by simp
    qed simp
    then show ?thesis by (simp add: o_def)
  qed
  from r[OF d(1)] r[OF d(2)] keys assms(3) show ?thesis by simp
qed

lemma freq_table_closed_form:
  "freq_table data = map (\<lambda>k. (k, count_list data k)) (sorted_list_of_set (set data))"
proof (rule sorted_assoc_unique)
  show "sorted_wrt (<) (map fst (freq_table data))" by (rule freq_table_sorted)
  show "sorted_wrt (<) (map fst (map (\<lambda>k. (k, count_list data k)) (sorted_list_of_set (set data))))"
    by (simp add: o_def)
  show "map_of (freq_table data) = map_of (map (\<lambda>k. (k, count_list data k)) (sorted_list_of_set (set data)))"
    by (rule ext) (simp add: map_of_freq_table map_of_map_restrict restrict_map_def)
qed

lemma freq_table_depends_on_counts:
  assumes "mset data = mset data'"
  shows "freq_table data = freq_table data'"
proof -
  from assms have "set data = set data'" by (rule mset_eq_setD)
  moreover have "count_list data k = count_list data' k" for k
    using arg_cong[OF assms, of "\<lambda>m. count m k"] by (simp add: count_mset)
  ultimately show ?thesis by (simp add: freq_table_closed_form)
qed

lemma build_depends_on_counts:
  "mset data = mset data' \<Longrightarrow> build data = build data'"
  by (simp add: build_def freq_table_depends_on_counts[of data data'])

text \<open>
  What the C++ standard asks of \<open>std::list::sort\<close> (a permutation, in the order of the
  comparison, nodes of equal frequency in their old order) leaves one result only, the
  one of \<open>sort_nodes\<close>; and there is one place only for a new node between the nodes of
  greater frequency and those of equal or smaller frequency, the one \<open>insert_node\<close>
  finds.
\<close>

lemma sort_nodes_unique:
  assumes "mset ns' = mset ns"
    and "\<And>k. filter (\<lambda>n. freq n = k) ns' = filter (\<lambda>n. freq n = k) ns"
    and "sorted_wrt (\<lambda>a b. freq b \<le> freq a) ns'"
  shows "sort_nodes ns = ns'"
  unfolding sort_nodes_def
proof (rule properties_for_sort_key)
  show "mset ns' = mset ns" by (rule assms(1))
  show "sorted (map (\<lambda>n. - int (freq n)) ns')"
    using assms(3) by (simp add: sorted_map)
  fix k assume "k \<in> set ns'"
  show "filter (\<lambda>x. - int (freq k) = - int (freq x)) ns' = filter (\<lambda>x. - int (freq k) = - int (freq x)) ns"
    using assms(2)[of "freq k"] by (simp add: eq_commute)
qed

lemma insert_node_unique:
  assumes "list_all (\<lambda>n. freq p < freq n) pre" "list_all (\<lambda>n. freq n \<le> freq p) post"
  shows "insert_node p (pre @ post) = pre @ p # post"
  using assms(1)
proof (induction pre)
  case Nil
  from assms(2) show ?case by (cases post) simp_all
next
  case (Cons n pre)
  then show ?case by simp
qed

section \<open>Properties of the decoder\<close>

lemma walk_code:
  "descend current c = Some (DLeaf v) \<Longrightarrow> c \<noteq> [] \<Longrightarrow>
   walk tree current (c @ rest) out = walk tree tree rest (out @ [v])"
proof (induction c arbitrary: current)
  case Nil
  then show ?case by simp
next
  case (Cons b c)
  from Cons.prems(1) obtain first second where cur: "current = DInternal first second"
    by (cases current) simp_all
  let ?next = "if b then second else first"
  from Cons.prems(1) cur have d: "descend ?next c = Some (DLeaf v)" by simp
  show ?case
  proof (cases c)
    case Nil
    with d have "?next = DLeaf v" by simp
    with Nil cur show ?thesis by (simp split: if_splits)
  next
    case (Cons b' c')
    with d obtain l r where n: "?next = DInternal l r"
      by (cases ?next) simp_all
    from Cons.IH[OF d] Cons have "walk tree ?next (c @ rest) out = walk tree tree rest (out @ [v])"
      by simp
    with n cur show ?thesis by (simp split: if_splits)
  qed
qed

lemma walk_partial:
  "descend current p = Some (DInternal l r) \<Longrightarrow> walk tree current p out = Inr out"
proof (induction p arbitrary: current)
  case Nil
  then show ?case by simp
next
  case (Cons b p)
  from Cons.prems obtain first second where cur: "current = DInternal first second"
    by (cases current) simp_all
  let ?next = "if b then second else first"
  from Cons.prems cur have d: "descend ?next p = Some (DInternal l r)" by simp
  then obtain l' r' where n: "?next = DInternal l' r'"
    by (cases ?next; cases p) simp_all
  from Cons.IH[OF d] n cur show ?case by (simp split: if_splits)
qed

lemma walk_codes:
  assumes "list_all2 (\<lambda>c v. descend tree c = Some (DLeaf v)) cs vs"
    and "descend tree p = Some (DInternal l r)"
  shows "walk tree tree (concat cs @ p) out = Inr (out @ vs)"
  using assms(1)
proof (induction cs vs arbitrary: out rule: list_all2_induct)
  case Nil
  show ?case using walk_partial[OF assms(2)] by simp
next
  case (Cons c cs v vs)
  from assms(2) obtain a b where t: "tree = DInternal a b"
    by (cases tree; cases p) simp_all
  with Cons.hyps(1) have "c \<noteq> []" by auto
  with Cons.hyps(1) have "walk tree tree (c @ (concat cs @ p)) out = walk tree tree (concat cs @ p) (out @ [v])"
    by (rule walk_code)
  with Cons.IH[of "out @ [v]"] show ?case by simp
qed

lemma decode_node_exhausted:
  "length data \<le> start \<Longrightarrow> decode_node le data start = Inl Undefined_behaviour"
  by (subst decode_node.simps) simp

lemma decode_node_truncated_symbol:
  fixes data :: "bool list"
  assumes "start < length data" "data ! start" "length data < 2 ^ 64"
    and "length data - (start + 1) < 8 * (LENGTH('a) div 8)" and "LENGTH('a) < 2 ^ 64"
  shows "(decode_node le data start :: fault + ('a::len word dnode \<times> nat))
       = Inl (Runtime_error ''from_bits: input data too small.'')"
proof -
  have "(from_bits le data (of_nat (start + 1)) :: fault + 'a word)
      = Inl (Runtime_error ''from_bits: input data too small.'')"
    using assms by (intro from_bits_too_small) simp_all
  with assms(1,2) show ?thesis
    by (subst decode_node.simps) simp
qed

lemma decode_node_encode_tree:
  fixes t :: "'a::len word node"
  assumes "8 dvd LENGTH('a)" and "length (pre @ encode_tree le t @ post) < 2 ^ 64"
  shows "decode_node le (pre @ encode_tree le t @ post) (length pre)
       = Inr (strip t, length pre + length (encode_tree le t))"
  using assms(2)
proof (induction t arbitrary: pre post)
  case (Leaf v f)
  let ?data = "pre @ encode_tree le (Leaf v f) @ post"
  have d: "?data = (pre @ [True]) @ to_bits le v @ post" by simp
  have "from_bits le ?data (of_nat (length pre + 1)) = Inr v"
    using from_bits_to_bits[OF assms(1), of "pre @ [True]" le v post] Leaf.prems
    unfolding d by simp
  moreover have "\<not> length ?data \<le> length pre" "?data ! length pre" by (simp_all add: nth_append)
  ultimately show ?case
    by (subst decode_node.simps) (simp add: length_to_bits sizeof_def mult.commute)
next
  case (Internal vs f l r)
  let ?el = "encode_tree le l" and ?er = "encode_tree le r"
  define data where "data = pre @ encode_tree le (Internal vs f l r) @ post"
  have d1: "data = (pre @ [False]) @ ?el @ (?er @ post)" by (simp add: data_def)
  have d2: "data = (pre @ False # ?el) @ ?er @ post" by (simp add: data_def)
  have len: "length data < 2 ^ 64" using Internal.prems by (simp add: data_def)
  have 1: "decode_node le data (length pre + 1) = Inr (strip l, length pre + 1 + length ?el)"
    using Internal.IH(1)[of "pre @ [False]" "?er @ post"] len unfolding d1 by simp
  have 2: "decode_node le data (length pre + 1 + length ?el)
         = Inr (strip r, length pre + 1 + length ?el + length ?er)"
    using Internal.IH(2)[of "pre @ False # ?el" post] len unfolding d2 by simp
  have 3: "\<not> length data \<le> length pre" "\<not> data ! length pre"
    by (simp_all add: data_def nth_append)
  have "decode_node le data (length pre)
      = Inr (DInternal (strip l) (strip r), length pre + 1 + length ?el + length ?er)"
    by (subst decode_node.simps) (simp only: 1 2 3 if_False sum.case prod.case)
  then show ?case by (simp add: data_def)
qed

lemma descend_codes:
  "(v, c) \<in> set (codes t) \<Longrightarrow> descend (strip t) c = Some (DLeaf v)"
  by (induction t arbitrary: c) auto

lemma root_internal:
  assumes "2 \<le> card (set (leaves t))"
  obtains vs f l r where "t = Internal vs f l r"
  using assms by (cases t) auto

lemma root_leaf:
  assumes "card (set (leaves t)) = 1" "distinct (leaves t)"
  obtains v f where "t = Leaf v f"
proof (cases t)
  case (Leaf v f)
  then show ?thesis by (rule that)
next
  case (Internal vs f l r)
  have ne: "leaves n \<noteq> []" for n :: "'a node" by (induction n) simp_all
  from assms(2) have "card (set (leaves t)) = length (leaves t)"
    by (rule distinct_card)
  with Internal have "card (set (leaves t)) = length (leaves l) + length (leaves r)"
    by simp
  moreover have "0 < length (leaves l)" "0 < length (leaves r)" using ne by simp_all
  ultimately show ?thesis using assms(1) by simp
qed

lemma encode_tree_with_map:
  "encode_tree_with (\<lambda>v. to_bits le (g v)) t = encode_tree le (map_node g t)"
  by (induction t) simp_all

lemma codes_map_node: "codes (map_node g t) = map (\<lambda>(v, c). (g v, c)) (codes t)"
  by (induction t) (simp_all add: case_prod_unfold)

section \<open>Properties of the framer\<close>

lemma div8_ceil: "(n + 7) div 8 = (if n mod 8 = 0 then n div 8 else Suc (n div 8))" for n :: nat
proof -
  define d m where "d = n div 8" and "m = n mod 8"
  have n: "n = 8 * d + m" and m: "m < 8" by (simp_all add: d_def m_def)
  have "(n + 7) div 8 = (if m = 0 then d else Suc d)"
  proof (cases "m = 0")
    case True
    have "(n + 7) div 8 = d"
      by (rule div_nat_eqI) (simp_all add: n True)
    with True show ?thesis by simp
  next
    case False
    have "(n + 7) div 8 = Suc d"
      by (rule div_nat_eqI) (use m False in \<open>simp_all add: n\<close>)
    with False show ?thesis by simp
  qed
  then show ?thesis by (simp add: d_def m_def)
qed

lemma Suc_mod8: "Suc k mod 8 = (if k mod 8 = 7 then 0 else Suc (k mod 8))"
  by (simp add: mod_Suc)

lemma Suc_div8: "Suc k div 8 = (if k mod 8 = 7 then Suc (k div 8) else k div 8)"
  by (simp add: div_Suc mod_Suc)

lemma div8_less_ceil: "i < n \<Longrightarrow> i div 8 < (n + 7) div 8" for i n :: nat
proof -
  assume "i < n"
  then have "i div 8 \<le> n div 8" by (simp add: div_le_mono)
  moreover have "n mod 8 = 0 \<Longrightarrow> i div 8 < n div 8"
  proof -
    assume "n mod 8 = 0"
    then have "n = 8 * (n div 8)" by auto
    with \<open>i < n\<close> have "i < 8 * (n div 8)" by simp
    then show ?thesis by (simp add: less_mult_imp_div_less mult.commute)
  qed
  ultimately show ?thesis by (auto simp: div8_ceil)
qed

lemma read_bits_one_byte:
  assumes "8 < sz"
  shows "read_bits sz 0 0 [b] [] = Inl (Runtime_error ''read_data: premature end of file.'')"
proof -
  have "i < sz" if "i \<le> 8" for i using assms that by simp
  then show ?thesis
    by (simp add: read_bits.simps)
qed

lemma bit_pack_from:
  "bit (pack_from j bs) q = (q < 8 \<and> j \<le> 7 - q \<and> 7 - q - j < length bs \<and> bs ! (7 - q - j))"
proof (induction bs arbitrary: j)
  case Nil
  show ?case by simp
next
  case (Cons b bs)
  have q8: "bit (x::byte) q \<Longrightarrow> q < 8" for x by (auto dest: bit_imp_le_length)
  show ?case
  proof (cases "q < 8")
    case True
    show ?thesis
    proof (cases "j \<le> 7 - q")
      case le: True
      show ?thesis
      proof (cases "7 - q - j")
        case 0
        with True le have "q + j = 7" by simp
        with True 0 le show ?thesis by (simp add: bit_or_iff Cons.IH mask_bit_0x80)
      next
        case (Suc d)
        with True le have "q + j \<noteq> 7" "Suc j \<le> 7 - q" "7 - q - Suc j = d" by simp_all
        with True Suc le show ?thesis by (simp add: bit_or_iff Cons.IH mask_bit_0x80)
      qed
    next
      case False
      with True have "q + j \<noteq> 7" "\<not> Suc j \<le> 7 - q" by simp_all
      with False show ?thesis by (simp add: bit_or_iff Cons.IH mask_bit_0x80)
    qed
  next
    case False
    then show ?thesis by (auto dest: q8)
  qed
qed

lemma bit_packed_byte:
  "bit (packed_byte data j) q = (q < 8 \<and> 8 * j + (7 - q) < length data \<and> data ! (8 * j + (7 - q)))"
  unfolding packed_byte_def bit_pack_from by auto

lemma write_loop:
  "k \<le> length data \<Longrightarrow>
   foldl (write_step data) (0, False, S) [0..<k]
     = (pack_from 0 (take (k mod 8) (drop (8 * (k div 8)) data)), k mod 8 \<noteq> 0,
        S @ map (packed_byte data) [0..<k div 8])"
proof (induction k)
  case 0
  show ?case by simp
next
  case (Suc k)
  let ?m = "k mod 8" and ?d = "k div 8"
  let ?byte = "pack_from 0 (take ?m (drop (8 * ?d) data))"
  let ?byte' = "if data ! k then ?byte OR drop_bit ?m (0x80 :: byte) else ?byte"
  from Suc.prems have k: "k < length data" by simp
  have km: "8 * ?d + ?m = k" by simp
  have b': "?byte' = pack_from 0 (take (Suc ?m) (drop (8 * ?d) data))"
  proof (rule bit_eqI)
    fix q
    have "?m < 8" by simp
    have e: "(q + ?m = 7) = (q < 8 \<and> 7 - q = ?m)" by auto
    have len: "8 * ?d + (7 - q) < length data" if "7 - q \<le> ?m" 
      using that k km by linarith
    have dk: "data ! (8 * ?d + (7 - q)) = data ! k" if "7 - q = ?m"
      using that km by simp
    have rem: "?m < length data - 8 * ?d"
      using k km by linarith
    show "bit ?byte' q = bit (pack_from 0 (take (Suc ?m) (drop (8 * ?d) data))) q"
      using len dk rem
      by (auto simp: bit_pack_from bit_or_iff mask_bit_0x80 e less_Suc_eq)
  qed
  have step: "foldl (write_step data) (0, False, S) [0..<Suc k]
      = (if ?m = 7 then (0, False, (S @ map (packed_byte data) [0..<?d]) @ [?byte'])
         else (?byte', True, S @ map (packed_byte data) [0..<?d]))"
    using Suc.IH k by (simp add: write_step_def Let_def)
  show ?case
  proof (cases "?m = 7")
    case True
    then have s: "Suc k mod 8 = 0" "Suc k div 8 = Suc ?d"
      by (simp_all add: Suc_mod8 Suc_div8)
    have "?byte' = packed_byte data ?d"
      unfolding b' packed_byte_def using True by simp
    with True s step show ?thesis by simp
  next
    case False
    then have s: "Suc k mod 8 = Suc ?m" "Suc k div 8 = ?d"
      by (simp_all add: Suc_mod8 Suc_div8)
    with False step b' show ?thesis by simp
  qed
qed

lemma write_data_packed:
  "write_data le data
     = to_bytes le (of_nat (length data) :: 64 word)
       @ map (packed_byte data) [0..<(length data + 7) div 8]"
proof -
  let ?n = "length data"
  let ?S = "to_bytes le (of_nat ?n :: 64 word)"
  have w: "write_data le data
      = (let (byte, pad, file) = foldl (write_step data) (0, False, ?S) [0..<?n]
         in if pad then file @ [byte] else file)"
    by (simp add: write_data_def write_step_def Let_def)
  show ?thesis
  proof (cases "?n mod 8 = 0")
    case True
    then have "(?n + 7) div 8 = ?n div 8" by (simp add: div8_ceil)
    with True show ?thesis by (simp add: w write_loop)
  next
    case False
    then have d: "(?n + 7) div 8 = Suc (?n div 8)" by (simp add: div8_ceil)
    have "length (drop (8 * (?n div 8)) data) = ?n mod 8"
      by (simp add: minus_mult_div_eq_mod mult.commute)
    then have "take (?n mod 8) (drop (8 * (?n div 8)) data) = take 8 (drop (8 * (?n div 8)) data)"
      by simp
    then have "pack_from 0 (take (?n mod 8) (drop (8 * (?n div 8)) data)) = packed_byte data (?n div 8)"
      by (simp add: packed_byte_def)
    with False d show ?thesis by (simp add: w write_loop)
  qed
qed

lemma byte_zero_iff: "(x = 0) = (\<forall>q. \<not> bit x q)" for x :: byte
proof
  assume "\<forall>q. \<not> bit x q"
  then show "x = 0" by (intro bit_eqI) simp
qed simp

lemma mask_test: "j < 8 \<Longrightarrow> (b AND drop_bit j (0x80 :: byte) \<noteq> 0) = bit b (7 - j)"
proof -
  assume j: "j < 8"
  have "(b AND drop_bit j (0x80 :: byte) = 0) = (\<forall>q. \<not> bit (b AND drop_bit j (0x80 :: byte)) q)"
    by (rule byte_zero_iff)
  also have "\<dots> = (\<forall>q. \<not> (bit b q \<and> q + j = 7))"
    by (simp only: bit_and_iff mask_bit_0x80)
  also have "\<dots> = (\<not> bit b (7 - j))"
  proof -
    have "q + j = 7 \<longleftrightarrow> q = 7 - j" for q using j by auto
    then show ?thesis by auto
  qed
  finally show ?thesis by simp
qed

lemma read_loop:
  assumes bs: "\<And>i. i < length data \<Longrightarrow> i div 8 < length bs \<and> bit (bs ! (i div 8)) (7 - i mod 8) = data ! i"
  shows "i \<le> length data \<Longrightarrow> (i mod 8 \<noteq> 0 \<Longrightarrow> byte = bs ! (i div 8)) \<Longrightarrow>
         read_bits (length data) i byte (drop ((i + 7) div 8) bs) (take i data) = Inr data"
proof (induction "length data - i" arbitrary: i byte)
  case 0
  then have "i = length data" by simp
  then show ?case by (simp add: read_bits.simps)
next
  case (Suc d)
  then have i: "i < length data" by simp
  from bs[OF i] have inb: "i div 8 < length bs"
    and bit: "bit (bs ! (i div 8)) (7 - i mod 8) = data ! i" by simp_all
  have m8: "i mod 8 < 8" by simp
  have out: "take i data @ [data ! i] = take (Suc i) data"
    using i by (simp add: take_Suc_conv_app_nth)
  have d: "d = length data - Suc i" using Suc.hyps(2) by simp
  have test: "(bs ! (i div 8) AND drop_bit (i mod 8) (0x80 :: byte) \<noteq> 0) = data ! i"
    using mask_test[OF m8] bit by simp
  have next_byte: "Suc i mod 8 \<noteq> 0 \<Longrightarrow> Suc i div 8 = i div 8"
    by (simp add: Suc_mod8 Suc_div8 split: if_splits)
  show ?case
  proof (cases "i mod 8 = 0")
    case True
    then have e: "(i + 7) div 8 = i div 8" "(Suc i + 7) div 8 = Suc (i div 8)"
      using div8_ceil[of i] div8_ceil[of "Suc i"] by (simp_all add: Suc_mod8 Suc_div8)
    have f: "drop (i div 8) bs = bs ! (i div 8) # drop (Suc (i div 8)) bs"
      using inb by (simp add: Cons_nth_drop_Suc)
    have "read_bits (length data) (Suc i) (bs ! (i div 8)) (drop ((Suc i + 7) div 8) bs) (take (Suc i) data)
        = Inr data"
      using i next_byte by (intro Suc.hyps(1)[OF d]) simp_all
    then have n: "read_bits (length data) (i + 1) (bs ! (i div 8)) (drop (Suc (i div 8)) bs)
        (take i data @ [data ! i]) = Inr data"
      unfolding e out by simp
    show ?thesis
      unfolding e
      by (subst read_bits.simps) (simp only: i True f test[unfolded True] n if_True list.case simp_thms)
  next
    case False
    then have e: "(Suc i + 7) div 8 = (i + 7) div 8"
      using div8_ceil[of i] div8_ceil[of "Suc i"]
      by (simp add: Suc_mod8 Suc_div8 split: if_splits)
    from False Suc.prems have b: "byte = bs ! (i div 8)" by simp
    have "read_bits (length data) (Suc i) byte (drop ((Suc i + 7) div 8) bs) (take (Suc i) data)
        = Inr data"
      using i b next_byte by (intro Suc.hyps(1)[OF d]) simp_all
    then have n: "read_bits (length data) (i + 1) (bs ! (i div 8)) (drop ((i + 7) div 8) bs)
        (take i data @ [data ! i]) = Inr data"
      unfolding e out b by simp
    show ?thesis
      unfolding b
      by (subst read_bits.simps) (simp only: i False test n if_True if_False simp_thms)
  qed
qed

lemma to_bytes_length: "length (to_bytes le v) = sizeof v"
  by (simp add: to_bytes_le_bytes length_le_bytes)

lemma write_data_empty: "write_data le [] = [0, 0, 0, 0, 0, 0, 0, 0]"
  by (cases le) (simp_all, code_simp+)

section \<open>Round trips that hold\<close>

text \<open>
  An input with at least two distinct symbols is recovered by \<open>decode\<close> from its
  encoding, on either host, when the width of \<open>T\<close> is a whole number of bytes.
\<close>

theorem roundtrip_two_symbols:
  fixes data :: "'a::len word list"
  assumes dvd: "8 dvd LENGTH('a)" and two: "2 \<le> card (set data)"
    and enc: "encode le data = Inr bits" and len: "length bits < 2 ^ 64"
  shows "decode le bits = Inr data"
proof -
  from two have ne: "data \<noteq> []" by auto
  show ?thesis
  proof (rule build_tree[OF ne])
    fix tree :: "'a word node" and lut
    assume b: "build data = ([tree], lut)" and s: "set (leaves tree) = set data"
      and c: "\<And>v c. (v, c) \<in> set (codes tree) \<Longrightarrow> rev (lut_get lut v) = c"
    let ?payload = "concat (map (\<lambda>value. rev (lut_get lut value)) data)"
    from enc b have bits: "bits = encode_tree le tree @ ?payload"
      by (simp add: encode_def)
    from two s have "2 \<le> card (set (leaves tree))" by simp
    then obtain vs f l r where t: "tree = Internal vs f l r"
      by (rule root_internal)
    have node: "decode_node le bits 0 = Inr (strip tree, length (encode_tree le tree))"
      using decode_node_encode_tree[OF dvd, of "[]" le tree ?payload] len unfolding bits by simp
    have "descend (strip tree) (rev (lut_get lut v)) = Some (DLeaf v)" if "v \<in> set data" for v
    proof -
      from that s have "v \<in> set (map fst (codes tree))" by (simp only: map_fst_codes)
      then obtain cv where cv: "(v, cv) \<in> set (codes tree)" by auto
      with c[OF cv] show ?thesis by (simp add: descend_codes)
    qed
    then have all: "list_all2 (\<lambda>c v. descend (strip tree) c = Some (DLeaf v))
                      (map (\<lambda>value. rev (lut_get lut value)) data) data"
      by (simp add: list_all2_map1 list_all2_same)
    have root: "descend (strip tree) [] = Some (DInternal (strip l) (strip r))"
      by (simp add: t)
    from walk_codes[OF all root, of "[]"] node show ?thesis
      by (simp add: decode_def bits)
  qed
qed

text \<open>
  An input with exactly one distinct symbol is encoded as the serialised leaf alone, and
  decoding that gives no symbol at all.
\<close>

theorem roundtrip_two_symbols_witness:
  "encode False [97, 97, 98, 99 :: 8 word]
     = Inr [False, True, False, True, True, False, False, False, False, True,
            False, True, False, True, True, False, False, False, True, True, True,
            False, True, True, False, False, False, True, False,
            False, False, True, True, True, False] \<and>
   decode False
      [False, True, False, True, True, False, False, False, False, True,
       False, True, False, True, True, False, False, False, True, True, True,
       False, True, True, False, False, False, True, False,
       False, False, True, True, True, False]
     = Inr [97, 97, 98, 99 :: 8 word]"
proof -
  let ?bits = "[False, True, False, True, True, False, False, False, False, True,
            False, True, False, True, True, False, False, False, True, True, True,
            False, True, True, False, False, False, True, False,
            False, False, True, True, True, False]"
  have 1: "8 dvd LENGTH(8)" by simp
  have 2: "2 \<le> card (set [97, 97, 98, 99 :: 8 word])" by code_simp
  have 3: "encode False [97, 97, 98, 99 :: 8 word] = Inr ?bits" by code_simp
  have 4: "length ?bits < 2 ^ 64" by simp
  from roundtrip_two_symbols[OF 1 2 3 4] 3 show ?thesis by simp
qed

theorem single_symbol_decodes_to_nothing:
  fixes data :: "'a::len word list"
  assumes dvd: "8 dvd LENGTH('a)" and one: "card (set data) = 1"
    and len: "length (True # to_bits le (hd data)) < 2 ^ 64"
  shows "encode le data = Inr (True # to_bits le (hd data)) \<and>
         (decode le (True # to_bits le (hd data)) :: fault + 'a word list) = Inr []"
proof -
  from one have ne: "data \<noteq> []" by auto
  show ?thesis
  proof (rule build_tree[OF ne])
    fix tree :: "'a word node" and lut
    assume b: "build data = ([tree], lut)" and s: "set (leaves tree) = set data"
      and d: "distinct (leaves tree)"
      and c: "\<And>v c. (v, c) \<in> set (codes tree) \<Longrightarrow> rev (lut_get lut v) = c"
    from one s have "card (set (leaves tree)) = 1" by simp
    from this d obtain v f where t: "tree = Leaf v f"
      by (rule root_leaf)
    from s t have sd: "set data = {v}" by simp
    with ne have hd: "hd data = v" by (cases data) auto
    have "rev (lut_get lut v) = []" using c[of v "[]"] t by simp
    with sd have "concat (map (\<lambda>value. rev (lut_get lut value)) data) = []"
      by auto
    with b t hd have enc: "encode le data = Inr (True # to_bits le (hd data))"
      by (simp add: encode_def)
    have "decode_node le ([] @ encode_tree le (Leaf v f) @ []) (length ([] :: bool list))
        = Inr (strip (Leaf v f), length ([] :: bool list) + length (encode_tree le (Leaf v f)))"
      using len hd by (intro decode_node_encode_tree[OF dvd]) simp
    then have "decode le (True # to_bits le v) = Inr ([] :: 'a word list)"
      by (simp add: decode_def)
    with enc hd show ?thesis by simp
  qed
qed

text \<open>
  The same two facts for any instance of the template whose symbols are serialised by
  \<open>to_bits\<close>, and for a signed \<open>T\<close> in particular.
\<close>

theorem roundtrip_with:
  fixes g :: "'s::linorder \<Rightarrow> 'a::len word"
  assumes dvd: "8 dvd LENGTH('a)" and two: "2 \<le> card (set data)"
    and enc: "encode_with (\<lambda>v. to_bits le (g v)) data = Inr bits" and len: "length bits < 2 ^ 64"
  shows "decode le bits = Inr (map g data)"
proof -
  from two have ne: "data \<noteq> []" by auto
  show ?thesis
  proof (rule build_tree[OF ne])
    fix tree :: "'s node" and lut
    assume b: "build data = ([tree], lut)" and s: "set (leaves tree) = set data"
      and c: "\<And>v c. (v, c) \<in> set (codes tree) \<Longrightarrow> rev (lut_get lut v) = c"
    let ?payload = "concat (map (\<lambda>value. rev (lut_get lut value)) data)"
    let ?T = "strip (map_node g tree)"
    from enc b have bits: "bits = encode_tree le (map_node g tree) @ ?payload"
      by (simp add: encode_with_def encode_tree_with_map)
    from two s have "2 \<le> card (set (leaves tree))" by simp
    then obtain vs f l r where t: "tree = Internal vs f l r"
      by (rule root_internal)
    have node: "decode_node le bits 0 = Inr (?T, length (encode_tree le (map_node g tree)))"
      using decode_node_encode_tree[OF dvd, of "[]" le "map_node g tree" ?payload] len
      unfolding bits by simp
    have "descend ?T (rev (lut_get lut v)) = Some (DLeaf (g v))" if "v \<in> set data" for v
    proof -
      from that s have "v \<in> set (map fst (codes tree))" by (simp only: map_fst_codes)
      then obtain cv where cv: "(v, cv) \<in> set (codes tree)" by auto
      then have "(g v, cv) \<in> set (codes (map_node g tree))"
        by (auto simp: codes_map_node)
      with c[OF cv] show ?thesis by (simp add: descend_codes)
    qed
    then have all: "list_all2 (\<lambda>c v. descend ?T c = Some (DLeaf v))
                      (map (\<lambda>value. rev (lut_get lut value)) data) (map g data)"
      by (simp add: list_all2_map1 list_all2_map2 list_all2_same)
    have root: "descend ?T [] = Some (DInternal (strip (map_node g l)) (strip (map_node g r)))"
      by (simp add: t)
    from walk_codes[OF all root, of "[]"] node show ?thesis
      by (simp add: decode_def bits)
  qed
qed

theorem roundtrip_two_symbols_signed:
  fixes data :: "'a::len word list"
  assumes dvd: "8 dvd LENGTH('a)" and two: "2 \<le> card (set data)"
    and enc: "encode_signed le data = Inr bits" and len: "length bits < 2 ^ 64"
  shows "decode le bits = Inr data"
proof -
  have "inj_on sint (set data)" by (rule inj_onI) (rule signed_word_eqI)
  then have "card (set (map sint data)) = card (set data)"
    by (simp add: card_image)
  with two have two': "2 \<le> card (set (map sint data))" by simp
  from enc have enc': "encode_with (\<lambda>i. to_bits le (word_of_int i :: 'a word)) (map sint data) = Inr bits"
    by (simp add: encode_signed_def)
  from roundtrip_with[OF dvd two' enc' len] show ?thesis by (simp add: o_def)
qed

theorem roundtrip_two_symbols_signed_witness:
  "encode_signed True [0x80, 0x01 :: 8 word]
     = Inr [False, True, False, False, False, False, False, False, False, True,
            True, True, False, False, False, False, False, False, False, True, False] \<and>
   decode True
      [False, True, False, False, False, False, False, False, False, True,
       True, True, False, False, False, False, False, False, False, True, False]
     = Inr [0x80, 0x01 :: 8 word]"
proof -
  let ?bits = "[False, True, False, False, False, False, False, False, False, True,
            True, True, False, False, False, False, False, False, False, True, False]"
  have 1: "8 dvd LENGTH(8)" by simp
  have 2: "2 \<le> card (set [0x80, 0x01 :: 8 word])" by code_simp
  have 3: "encode_signed True [0x80, 0x01 :: 8 word] = Inr ?bits" by code_simp
  have 4: "length ?bits < 2 ^ 64" by simp
  from roundtrip_two_symbols_signed[OF 1 2 3 4] 3 show ?thesis by simp
qed

lemma encode_with_single_symbol:
  assumes one: "card (set data) = 1"
  shows "encode_with bits_of data = Inr (True # bits_of (hd data))"
proof -
  from one have ne: "data \<noteq> []" by auto
  show ?thesis
  proof (rule build_tree[OF ne])
    fix tree :: "'a node" and lut
    assume b: "build data = ([tree], lut)" and s: "set (leaves tree) = set data"
      and d: "distinct (leaves tree)"
      and c: "\<And>v c. (v, c) \<in> set (codes tree) \<Longrightarrow> rev (lut_get lut v) = c"
    from one s have "card (set (leaves tree)) = 1" by simp
    from this d obtain v f where t: "tree = Leaf v f"
      by (rule root_leaf)
    from s t have sd: "set data = {v}" by simp
    with ne have hd: "hd data = v" by (cases data) auto
    have "rev (lut_get lut v) = []" using c[of v "[]"] t by simp
    with sd have "concat (map (\<lambda>value. rev (lut_get lut value)) data) = []"
      by auto
    with b t hd show ?thesis
      by (simp add: encode_with_def)
  qed
qed

theorem single_symbol_decodes_to_nothing_signed:
  fixes data :: "'a::len word list"
  assumes dvd: "8 dvd LENGTH('a)" and one: "card (set data) = 1"
    and len: "length (True # to_bits le (hd data)) < 2 ^ 64"
  shows "encode_signed le data = Inr (True # to_bits le (hd data)) \<and>
         (decode le (True # to_bits le (hd data)) :: fault + 'a word list) = Inr []"
proof -
  from one have ne: "data \<noteq> []" by auto
  have "inj_on sint (set data)" by (rule inj_onI) (rule signed_word_eqI)
  then have "card (set (map sint data)) = card (set data)"
    by (simp add: card_image)
  with one have "card (set (map sint data)) = 1" by simp
  then have "encode_signed le data = Inr (True # to_bits le (word_of_int (hd (map sint data)) :: 'a word))"
    unfolding encode_signed_def by (rule encode_with_single_symbol)
  with ne have "encode_signed le data = Inr (True # to_bits le (hd data))"
    by (simp add: hd_map)
  with single_symbol_decodes_to_nothing[OF dvd one len] show ?thesis by simp
qed

text \<open>
  On a little-endian host \<open>read_data\<close> returns the bits \<open>write_data\<close> wrote.  The frame
  is the bit count in eight bytes, least significant first on either host
  (\<open>write_data_packed\<close>, \<open>to_bytes_le_bytes\<close>), followed by the bits packed from bit 7
  of each byte downwards, the last byte padded with zeros (\<open>bit_packed_byte\<close>).
\<close>

theorem single_symbol_decodes_to_nothing_witness:
  "encode True [7, 7, 7 :: 8 word] = Inr (True # to_bits True (7 :: 8 word)) \<and>
   (decode True (True # to_bits True (7 :: 8 word)) :: fault + 8 word list) = Inr []"
proof -
  have 1: "8 dvd LENGTH(8)" by simp
  have 2: "card (set [7, 7, 7 :: 8 word]) = 1" by simp
  have 3: "length (True # to_bits True (hd [7, 7, 7 :: 8 word])) < 2 ^ 64"
    by (simp add: length_to_bits sizeof_def)
  from single_symbol_decodes_to_nothing[OF 1 2 3] show ?thesis by simp
qed

theorem read_data_write_data_little_endian_host:
  assumes "length data < 2 ^ 64"
  shows "read_data True (write_data True data) = Inr data"
proof -
  let ?n = "length data"
  let ?S = "to_bytes True (of_nat ?n :: 64 word)"
  let ?bs = "map (packed_byte data) [0..<(?n + 7) div 8]"
  have w: "write_data True data = ?S @ ?bs" by (rule write_data_packed)
  have lS: "length ?S = 8" by (simp add: to_bytes_length sizeof_def)
  have "from_bytes True ([] @ ?S @ []) (of_nat (length ([] :: byte list))) = Inr (of_nat ?n :: 64 word)"
    by (rule from_bytes_to_bytes_little_endian_host) (simp_all add: lS)
  then have sz: "from_bytes True ?S 0 = Inr (of_nat ?n :: 64 word)" by simp
  have un: "unat (of_nat ?n :: 64 word) = ?n" using assms by (rule unat_of_nat64)
  have "i div 8 < length ?bs \<and> bit (?bs ! (i div 8)) (7 - i mod 8) = data ! i" if "i < ?n" for i
  proof -
    from that have a: "i div 8 < (?n + 7) div 8" by (rule div8_less_ceil)
    have "i mod 8 < 8" by simp
    then have b: "7 - (7 - i mod 8) = i mod 8" "7 - i mod 8 < 8" by simp_all
    from a b that show ?thesis by (simp add: bit_packed_byte)
  qed
  from read_loop[of data ?bs 0 0, OF this]
  have "read_bits ?n 0 0 ?bs [] = Inr data" by simp
  then show ?thesis
    unfolding w by (simp add: read_data_def lS sz un)
qed

theorem read_data_write_data_little_endian_host_witness:
  "read_data True (write_data True [True, False, True, True, False, True, True, False, True])
     = Inr [True, False, True, True, False, True, True, False, True]"
  by (rule read_data_write_data_little_endian_host) simp

section \<open>The claims\<close>

text \<open>
  Claim C1 (decoding the encoding of any symbol sequence gives the sequence back).
  The code does not do this for an input with one distinct symbol: \<open>encode\<close> of
  \<open>"aaaa"\<close> is the nine bits of the serialised leaf and no payload, because the table
  entry of the only symbol is empty, and \<open>decode\<close> of these nine bits finds no bit left
  after the tree and returns the empty sequence.  The same happens for every input with
  one distinct symbol (\<open>single_symbol_decodes_to_nothing\<close>); an input with two or more
  distinct symbols is recovered (\<open>roundtrip_two_symbols\<close>).
\<close>

theorem single_symbol_not_recovered:
  "encode le [97, 97, 97, 97 :: 8 word]
     = Inr [True, False, True, True, False, False, False, False, True] \<and>
   (decode le [True, False, True, True, False, False, False, False, True]
      :: fault + 8 word list) = Inr []"
  by (cases le) (simp_all, code_simp+)

text \<open>
  Claim C2 (a bit sequence that ends before the tree is complete makes \<open>decode\<close> fail
  with a reported error, never with an out-of-bounds access).  The constructor reads the
  end flag of a node with \<open>data[start++]\<close> and no check: on the empty bit sequence, and
  on the single bit \<open>0\<close> that announces two children, the read is out of bounds
  (\<open>decode_node_exhausted\<close> for every position at or past the end).  Only a sequence
  that ends inside the symbol of a leaf reaches the check of \<open>from_bits\<close>
  (\<open>decode_node_truncated_symbol\<close>).
\<close>

theorem decode_exhausted_tree_undefined:
  "(decode le [] :: fault + 'a::len word list) = Inl Undefined_behaviour \<and>
   (decode le [False] :: fault + 'a::len word list) = Inl Undefined_behaviour"
  by (simp add: decode_def decode_node.simps[of le "[]"] decode_node.simps[of le "[False]"])

text \<open>
  Claim C3 (encoding the empty sequence is a defined operation with an empty result).
  On the empty input the node list is empty and \<open>*nodes.begin()\<close> dereferences
  \<open>end()\<close>: there is no tree to serialise and no result.  (The frame of an empty bit
  sequence would be eight zero bytes, \<open>write_data_empty\<close>, but \<open>encode\<close> returns none.)
\<close>

theorem encode_empty_undefined: "encode le ([] :: 'a::len word list) = Inl Undefined_behaviour"
  by (simp add: encode_def build_def freq_table_def sort_nodes_def merge_loop.simps)

text \<open>
  Claim C4 (a payload that ends while the traversal stands at an inner node is reported
  as an error unless the caller asks otherwise).  \<open>decode\<close> has no such error and no
  such parameter.  In the counterexample the input is the encoding of \<open>"aabc"\<close> without
  its last bit: \<open>decode\<close> returns \<open>"aab"\<close>.
\<close>

theorem decode_truncated_payload_accepted:
  "(decode True
      [False, True, False, True, True, False, False, False, False, True,
       False, True, False, True, True, False, False, False, True, True, True,
       False, True, True, False, False, False, True, False,
       False, False, True, True, True] :: fault + 8 word list) = Inr [97, 97, 98]"
  by code_simp

text \<open>
  Claim C4 as the code has it: when the tree has been read and the rest of the bits is
  a sequence of complete codes followed by bits that lead from the root to an inner
  node, \<open>decode\<close> returns the symbols of the complete codes and nothing tells the
  caller that bits were left over.
\<close>

theorem decode_accepts_dangling_code:
  assumes "decode_node le data 0 = Inr (tree, start)"
    and "drop start data = concat cs @ partial"
    and "list_all2 (\<lambda>c v. descend tree c = Some (DLeaf v)) cs vs"
    and "descend tree partial = Some (DInternal l r)"
  shows "decode le data = Inr vs"
  using walk_codes[OF assms(3,4), of "[]"] assms(1,2) by (simp add: decode_def)

theorem decode_accepts_dangling_code_witness:
  "decode_node True
      [False, True, False, True, True, False, False, False, False, True,
       False, True, False, True, True, False, False, False, True, True, True,
       False, True, True, False, False, False, True, False,
       False, False, True, True, True] 0
     = Inr (DInternal (DLeaf (97 :: 8 word)) (DInternal (DLeaf 99) (DLeaf 98)), 29) \<and>
   descend (DInternal (DLeaf (97 :: 8 word)) (DInternal (DLeaf 99) (DLeaf 98))) [True]
     = Some (DInternal (DLeaf 99) (DLeaf 98)) \<and>
   decode True
      [False, True, False, True, True, False, False, False, False, True,
       False, True, False, True, True, False, False, False, True, True, True,
       False, True, True, False, False, False, True, False,
       False, False, True, True, True]
     = Inr [97, 97, 98 :: 8 word]"
proof -
  let ?data = "[False, True, False, True, True, False, False, False, False, True,
       False, True, False, True, True, False, False, False, True, True, True,
       False, True, True, False, False, False, True, False,
       False, False, True, True, True]"
  let ?tree = "DInternal (DLeaf (97 :: 8 word)) (DInternal (DLeaf 99) (DLeaf 98))"
  have 1: "decode_node True ?data 0 = Inr (?tree, 29)" by code_simp
  have 2: "drop 29 ?data = concat [[False], [False], [True, True]] @ [True]" by simp
  have 3: "list_all2 (\<lambda>c v. descend ?tree c = Some (DLeaf v))
             [[False], [False], [True, True]] [97, 97, 98]" by simp
  have 4: "descend ?tree [True] = Some (DInternal (DLeaf 99) (DLeaf 98))" by simp
  from decode_accepts_dangling_code[OF 1 2 3 4] 1 4 show ?thesis by simp
qed

text \<open>
  Claim C5 (the new inner node is re-inserted so that the list stays ordered by
  descending frequency, and behind the older nodes of the same frequency).  The first
  half holds; the position among equal frequencies is the opposite one.  On the input
  \<open>[3, 3, 1, 2]\<close> the first pass merges the leaves of 2 and 1 into a node of frequency
  2 and puts it in front of the leaf of 3, which has frequency 2 and is older.
\<close>

theorem reinsert_tie_counterexample:
  "fst (merge_step (sort_nodes (map (\<lambda>(value, freq). Leaf value freq)
                       (freq_table [3, 3, 1, 2 :: 8 word])), Map.empty))
     = [Internal [2, 1] 2 (Leaf 2 1) (Leaf 1 1), Leaf 3 2] \<and>
   freq (Internal [2, 1] 2 (Leaf 2 1) (Leaf (1 :: 8 word) 1)) = freq (Leaf (3 :: 8 word) 2)"
  by code_simp

text \<open>
  Claim C5 as the code has it: on a list in descending order of frequency with at least
  two nodes, one pass removes the last two nodes, which have the two lowest
  frequencies, and puts their parent behind every node of greater frequency and in
  front of every node of equal or smaller frequency; the list is again in descending
  order.
\<close>

theorem merge_step_reinserts_before_ties:
  assumes "sorted_wrt (\<lambda>a b. freq b \<le> freq a) nodes" and "2 \<le> length nodes"
  shows "\<exists>pre post.
           fst (merge_step (nodes, lut))
             = pre @ parent_node (last nodes) (last (butlast nodes)) # post \<and>
           pre @ post = butlast (butlast nodes) \<and>
           list_all (\<lambda>n. freq (parent_node (last nodes) (last (butlast nodes))) < freq n) pre \<and>
           list_all (\<lambda>n. freq n \<le> freq (parent_node (last nodes) (last (butlast nodes)))) post \<and>
           list_all (\<lambda>n. freq (last (butlast nodes)) \<le> freq n) (butlast (butlast nodes)) \<and>
           freq (last nodes) \<le> freq (last (butlast nodes)) \<and>
           sorted_wrt (\<lambda>a b. freq b \<le> freq a) (fst (merge_step (nodes, lut)))"
proof -
  let ?l = "last nodes" and ?r = "last (butlast nodes)" and ?rest = "butlast (butlast nodes)"
  from assms(1) last_two[OF assms(2)]
  have s: "sorted_wrt (\<lambda>a b. freq b \<le> freq a) (?rest @ [?r, ?l])" by simp
  then have rest: "sorted_wrt (\<lambda>a b. freq b \<le> freq a) ?rest"
    and low: "list_all (\<lambda>n. freq ?r \<le> freq n) ?rest" "freq ?l \<le> freq ?r"
    by (auto simp: sorted_wrt_append list_all_iff)
  from insert_node_split[OF rest, of "parent_node ?l ?r"] obtain pre post where
    "insert_node (parent_node ?l ?r) ?rest = pre @ parent_node ?l ?r # post" "pre @ post = ?rest"
    "list_all (\<lambda>n. freq (parent_node ?l ?r) < freq n) pre"
    "list_all (\<lambda>n. freq n \<le> freq (parent_node ?l ?r)) post"
    by blast
  with low sorted_insert_node[OF rest, of "parent_node ?l ?r"] show ?thesis
    unfolding merge_step_nodes by blast
qed

theorem merge_step_reinserts_before_ties_witness:
  "sorted_wrt (\<lambda>a b. freq b \<le> freq a) [Leaf 3 2, Leaf 1 1, Leaf (2 :: 8 word) 1] \<and>
   2 \<le> length [Leaf 3 2, Leaf 1 1, Leaf (2 :: 8 word) 1] \<and>
   (\<exists>pre post.
      fst (merge_step ([Leaf 3 2, Leaf 1 1, Leaf (2 :: 8 word) 1], Map.empty))
        = pre @ parent_node (Leaf 2 1) (Leaf 1 1) # post \<and>
      pre @ post = [Leaf 3 2] \<and>
      list_all (\<lambda>n. freq n \<le> freq (parent_node (Leaf 2 1) (Leaf (1 :: 8 word) 1))) post)"
proof -
  have 1: "sorted_wrt (\<lambda>a b. freq b \<le> freq a) [Leaf 3 2, Leaf 1 1, Leaf (2 :: 8 word) 1]"
    by simp
  have 2: "2 \<le> length [Leaf 3 2, Leaf 1 1, Leaf (2 :: 8 word) 1]" by simp
  from merge_step_reinserts_before_ties[OF 1 2, of Map.empty] 1 2 show ?thesis
    by simp blast
qed

text \<open>
  Claim C6.  For every non-empty input the merge loop of \<open>encode\<close> ends with exactly one
  node, the tree.  Every node of it that is not an end node has exactly two children
  (the constructor \<open>Node(Node* l, Node* r)\<close> is the only way to build one), its leaves are
  the distinct symbols of the input, each once, the table entry of every symbol read
  from the back is the root-to-leaf code of its leaf, and no symbol's code is a prefix of
  the code of another symbol.
\<close>

theorem build_tree_prefix_free:
  assumes "data \<noteq> []"
  shows "\<exists>tree lut. build data = ([tree], lut) \<and> full_binary tree \<and>
           distinct (leaves tree) \<and> set (leaves tree) = set data \<and>
           (\<forall>(v, c)\<in>set (codes tree). code_of lut v = c) \<and>
           (\<forall>a\<in>set data. \<forall>b\<in>set data. a \<noteq> b \<longrightarrow> \<not> prefix (code_of lut a) (code_of lut b))"
proof (rule build_tree[OF assms])
  fix tree :: "'a node" and lut
  assume b: "build data = ([tree], lut)"
    and d: "distinct (leaves tree)" and s: "set (leaves tree) = set data"
    and c: "\<And>v c. (v, c) \<in> set (codes tree) \<Longrightarrow> rev (lut_get lut v) = c"
  have pf: "\<not> prefix (code_of lut a) (code_of lut b)"
    if a: "a \<in> set data" and b: "b \<in> set data" and ab: "a \<noteq> b" for a b
  proof
    assume p: "prefix (code_of lut a) (code_of lut b)"
    from a s have "a \<in> set (map fst (codes tree))" by (simp only: map_fst_codes)
    then obtain ca where ca: "(a, ca) \<in> set (codes tree)" by auto
    from b s have "b \<in> set (map fst (codes tree))" by (simp only: map_fst_codes)
    then obtain cb where cb: "(b, cb) \<in> set (codes tree)" by auto
    from p c[OF ca] c[OF cb] have "prefix ca cb" by (simp add: code_of_def)
    from codes_prefix_free[OF ca cb d this] ab show False by simp
  qed
  have cs: "\<forall>(v, c)\<in>set (codes tree). code_of lut v = c"
    using c by (auto simp: code_of_def)
  have "\<forall>a\<in>set data. \<forall>b\<in>set data. a \<noteq> b \<longrightarrow> \<not> prefix (code_of lut a) (code_of lut b)"
    using pf by blast
  with cs show ?thesis
    by (intro exI[of _ tree] exI[of _ lut] conjI) (rule b full_binary_all d s | assumption)+
qed

theorem build_tree_prefix_free_witness:
  "\<exists>tree lut. build [97, 97, 97, 98 :: 8 word] = ([tree], lut) \<and> full_binary tree \<and>
     \<not> prefix (code_of lut 97) (code_of lut 98) \<and> \<not> prefix (code_of lut 98) (code_of lut 97)"
proof -
  have ne: "[97, 97, 97, 98 :: 8 word] \<noteq> []" by simp
  from build_tree_prefix_free[OF ne] obtain tree lut
    where b: "build [97, 97, 97, 98 :: 8 word] = ([tree], lut)" and f: "full_binary tree"
      and p: "\<forall>a\<in>set [97, 97, 97, 98 :: 8 word]. \<forall>b\<in>set [97, 97, 97, 98 :: 8 word].
                a \<noteq> b \<longrightarrow> \<not> prefix (code_of lut a) (code_of lut b)"
    by blast
  have "(97 :: 8 word) \<noteq> 98" by simp
  with p have "\<not> prefix (code_of lut 97) (code_of lut 98)" "\<not> prefix (code_of lut 98) (code_of lut 97)"
    by simp_all
  with b f show ?thesis by blast
qed

text \<open>
  Claim C7 (reading back a written frame returns the bit sequence).  On a big-endian
  host \<open>write_data\<close> writes the bit count least significant byte first, and
  \<open>from_bytes\<close> in \<open>read_data\<close> reads it most significant byte first: for the single bit
  \<open>1\<close> the count read is \<open>2^56\<close>, and the loop fails at the end of the file.  On a
  little-endian host the claim holds (\<open>read_data_write_data_little_endian_host\<close>).
\<close>

theorem read_data_big_endian_host_fails:
  "write_data False [True] = [1, 0, 0, 0, 0, 0, 0, 0, 0x80] \<and>
   read_data False (write_data False [True])
     = Inl (Runtime_error ''read_data: premature end of file.'')"
proof -
  have w: "write_data False [True] = [1, 0, 0, 0, 0, 0, 0, 0, 0x80]"
    by code_simp
  have s: "(from_bytes False [1, 0, 0, 0, 0, 0, 0, 0] 0 :: fault + 64 word) = Inr 0x0100000000000000"
    by code_simp
  have "8 < unat (0x0100000000000000 :: 64 word)" by simp
  then show ?thesis
    unfolding w by (simp add: read_data_def s read_bits_one_byte)
qed

text \<open>
  Claim C8 (decoding the byte serialisation and the bit serialisation of a value gives
  the value, on every host).  \<open>to_bytes\<close> writes little-endian on both hosts.  On a
  big-endian host \<open>from_bytes\<close> copies \<open>data[start + i]\<close> to byte \<open>i\<close> of the value, as on a
  little-endian host, so the bytes come back swapped: \<open>0x0102\<close> is read as \<open>0x0201\<close>.
  The bit serialisation round-trips on both hosts (\<open>from_bits_to_bits\<close>), \<open>to_bytes\<close> is
  little-endian on both (\<open>to_bytes_le_bytes\<close>), and the byte serialisation round-trips on
  a little-endian host (\<open>from_bytes_to_bytes_little_endian_host\<close>).
\<close>

theorem from_bytes_big_endian_host_swaps:
  "to_bytes False (0x0102 :: 16 word) = [0x02, 0x01] \<and>
   (from_bytes False (to_bytes False (0x0102 :: 16 word)) 0 :: fault + 16 word) = Inr 0x0201"
  by code_simp

text \<open>
  Claim C9 (\<open>from_bytes\<close> and \<open>from_bits\<close> fail with an error whenever too few bytes or
  bits are left from \<open>start\<close>, also when \<open>start\<close> is beyond the end).  The check
  \<open>data.size() - start < sizeof(T)\<close> is an unsigned subtraction: with \<open>start\<close> beyond
  the end it wraps around to a large number, the check passes and the read is out of
  bounds.  With \<open>start\<close> at or before the end the check does what the claim says
  (\<open>from_bytes_too_small\<close>, \<open>from_bytes_result\<close>, \<open>from_bits_too_small\<close>,
  \<open>from_bits_result\<close>).
\<close>

theorem start_beyond_end_unchecked:
  "(from_bytes le [] 1 :: fault + 8 word) = Inl Undefined_behaviour \<and>
   (from_bits le [] 1 :: fault + 8 word) = Inl Undefined_behaviour"
  by (cases le) (simp_all, code_simp+)


end
